theory Spec2Isabelle
  imports Main "HOL-Library.AList" "HOL-Library.Sublist"
begin

section \<open>The crawler of crawler.js, embedded\<close>

text \<open>
  The program keeps three global \<open>Map\<close>s (\<open>crawledPages\<close>, \<open>crawledCookies\<close>,
  \<open>crawledIframes\<close>) and builds a tree of page objects by mutating them in place. A page
  object is stored in \<open>crawledPages\<close> by reference and its \<open>children\<close> array is handed
  to other page objects by reference, so objects and arrays live in an explicit store
  and the fields hold addresses.
\<close>

subsection \<open>Data\<close>

type_synonym addr = nat

text \<open>
  A page object \<open>{url, title, children}\<close>. A field that has not been assigned is
  \<open>undefined\<close> in JavaScript: \<open>None\<close> here. \<open>children\<close> refers to an array.
\<close>

record page_node =
  url :: string
  title :: "string option"
  children :: "addr option"

text \<open>
  A cookie as \<open>Network.getAllCookies\<close> returns it: its name, its other attributes, and
  the field \<open>firstFound\<close> that \<open>crawl\<close> adds.
\<close>

record cookie =
  name :: string
  attributes :: "(string \<times> string) list"
  firstFound :: "string option"

text \<open>The object \<open>iframedata\<close> with its fields \<open>src\<close> and \<open>firstFound\<close>.\<close>

record iframedata =
  iframe_src :: string
  iframe_firstFound :: string

text \<open>
  An element of the loaded document, as far as the two in-page functions read it:
  \<open>localName\<close>, \<open>href\<close> and \<open>src\<close> (the empty string where the element has none:
  the code only tests \<open>href\<close> for truthiness and reads \<open>src\<close> of iframes), and
  \<open>shadowRoot\<close>, given by what \<open>shadowRoot.querySelectorAll('*')\<close> returns.
\<close>

datatype element =
  Element (localName: string) (href: string) (src: string) (shadowRoot: "element list option")

text \<open>
  What the browser holds after \<open>newPage.goto\<close>: \<open>location.href\<close>, \<open>document.title\<close>,
  the result of \<open>document.querySelectorAll('*')\<close> and the cookies of
  \<open>Network.getAllCookies\<close>.
\<close>

record loaded_page =
  location_href :: string
  document_title :: string
  document_elements :: "element list"
  all_cookies :: "cookie list"

datatype error = NavigationError | TypeError

text \<open>
  The browser is the external collaborator. \<open>goto\<close> is given the URLs navigated to so
  far, in order, and the URL to load, so that a page may depend on the browsing history
  (cookies accumulate); it fails with an error or returns the loaded page.
  \<open>url_origin\<close> is \<open>new URL(x).origin\<close> of the page context; \<open>None\<close> where the
  constructor throws.
\<close>

record browser =
  goto :: "string list \<Rightarrow> string \<Rightarrow> error + loaded_page"
  url_origin :: "string \<Rightarrow> string option"

text \<open>
  The constants \<open>URL\<close> and \<open>maxDepth\<close>, read from the environment. \<open>maxDepth\<close>
  is \<open>parseInt(process.env.DEPTH) || 2\<close>: an integer, possibly negative, and never 0
  (0 and a value that is no number give 2). The properties below are proved for every
  integer; the examples use 1, 2 and 3.
\<close>

record config =
  URL :: string
  maxDepth :: int

text \<open>
  The store and the globals. \<open>objs\<close> holds the page objects and \<open>arrs\<close> the arrays;
  addresses below \<open>next_obj\<close> and \<open>next_arr\<close> are allocated. The three \<open>Map\<close>s keep
  their insertion order. \<open>loads\<close> records every call of \<open>newPage.goto\<close> with its
  outcome, in order.
\<close>

record world =
  objs :: "addr \<Rightarrow> page_node"
  next_obj :: addr
  arrs :: "addr \<Rightarrow> addr list"
  next_arr :: addr
  crawledPages :: "(string \<times> addr) list"
  crawledCookies :: "(string \<times> cookie) list"
  crawledIframes :: "(string \<times> iframedata) list"
  loads :: "(string \<times> (error + loaded_page)) list"

subsection \<open>The functions evaluated in the page\<close>

text \<open>\<open>findAllElements\<close>: every element, and after each the elements of its shadow root.\<close>

fun findAllElements :: "element list \<Rightarrow> element list" where
  "findAllElements [] = []"
| "findAllElements (Element n h s None # nodes) =
     Element n h s None # findAllElements nodes"
| "findAllElements (Element n h s (Some sub) # nodes) =
     Element n h s (Some sub) # findAllElements sub @ findAllElements nodes"

text \<open>\<open>str.indexOf(sub) < 0\<close> is the negation of \<open>str.includes(sub)\<close>.\<close>

fun str_includes :: "string \<Rightarrow> string \<Rightarrow> bool" where
  "str_includes [] sub = (sub = [])"
| "str_includes (c # cs) sub = (prefix sub (c # cs) \<or> str_includes cs sub)"

text \<open>\<open>Array.from(new Set(xs))\<close>: the first occurrence of each value, in order.\<close>

definition array_from_set :: "'a list \<Rightarrow> 'a list" where
  "array_from_set xs = foldl (\<lambda>seen x. if x \<in> set seen then seen else seen @ [x]) [] xs"

text \<open>The first \<open>filter\<close> of \<open>collectAllSameOriginAnchorsDeep\<close>.\<close>

definition is_page_anchor :: "element \<Rightarrow> bool" where
  "is_page_anchor el \<longleftrightarrow>
     localName el = ''a'' \<and> href el \<noteq> [] \<and> \<not> str_includes (href el) ''.pdf''
     \<and> href el \<noteq> [] \<and> \<not> str_includes (href el) ''.ics''
     \<and> \<not> str_includes (href el) ''ahPg=search.list''
     \<and> \<not> str_includes (href el) ''ahPg=show.vehicle''"

text \<open>
  The third \<open>filter\<close>: with \<open>sameOrigin\<close>, each element is kept when the origin of
  \<open>location\<close> equals the origin of its \<open>href\<close>; \<open>new URL\<close> throws a \<open>TypeError\<close> on a
  string that is no URL, which ends the evaluation.
\<close>

fun filter_same_origin ::
  "(string \<Rightarrow> string option) \<Rightarrow> bool \<Rightarrow> string \<Rightarrow> element list \<Rightarrow> error + element list" where
  "filter_same_origin origin sameOrigin loc [] = Inr []"
| "filter_same_origin origin sameOrigin loc (el # els) =
     (if sameOrigin then
        (case origin loc of
           None \<Rightarrow> Inl TypeError
         | Some o1 \<Rightarrow>
            (case origin (href el) of
               None \<Rightarrow> Inl TypeError
             | Some o2 \<Rightarrow>
                (case filter_same_origin origin sameOrigin loc els of
                   Inl e \<Rightarrow> Inl e
                 | Inr r \<Rightarrow> Inr (if o1 = o2 then el # r else r))))
      else
        (case filter_same_origin origin sameOrigin loc els of
           Inl e \<Rightarrow> Inl e
         | Inr r \<Rightarrow> Inr (el # r)))"

definition collectAllSameOriginAnchorsDeep ::
  "(string \<Rightarrow> string option) \<Rightarrow> loaded_page \<Rightarrow> bool \<Rightarrow> error + string list" where
  "collectAllSameOriginAnchorsDeep origin pg sameOrigin =
     (let allElements = findAllElements (document_elements pg);
          anchors = filter is_page_anchor allElements;
          others = filter (\<lambda>el. href el \<noteq> location_href pg) anchors
      in case filter_same_origin origin sameOrigin (location_href pg) others of
           Inl e \<Rightarrow> Inl e
         | Inr same \<Rightarrow> Inr (array_from_set (map href same)))"

definition findAllIframes :: "loaded_page \<Rightarrow> string list" where
  "findAllIframes pg =
     (let allElements = findAllElements (document_elements pg);
          frames = filter (\<lambda>el. localName el = ''iframe'') allElements;
          others = filter (\<lambda>el. src el \<noteq> location_href pg) frames
      in array_from_set (map src others))"

subsection \<open>Maps and allocation\<close>

text \<open>
  A JavaScript \<open>Map\<close> is an association list in insertion order: \<open>has\<close> and \<open>get\<close>
  are \<open>map_of\<close>, and \<open>set\<close> is \<open>AList.update\<close> (which replaces the value of a present
  key where it stands and appends an absent key at the end).
\<close>

definition map_has :: "('k \<times> 'v) list \<Rightarrow> 'k \<Rightarrow> bool" where
  "map_has m k \<longleftrightarrow> map_of m k \<noteq> None"

definition map_set :: "'k \<Rightarrow> 'v \<Rightarrow> ('k \<times> 'v) list \<Rightarrow> ('k \<times> 'v) list" where
  "map_set k v m = AList.update k v m"

text \<open>An object literal \<open>({url})\<close> is a new object; \<open>anchors.map(url => ({url}))\<close> is a
  new array of new objects.\<close>

definition new_stub :: "string \<Rightarrow> world \<Rightarrow> addr \<times> world" where
  "new_stub u w =
     (next_obj w,
      w\<lparr>objs := (objs w)(next_obj w := \<lparr>url = u, title = None, children = None\<rparr>),
        next_obj := Suc (next_obj w)\<rparr>)"

fun new_stubs :: "string list \<Rightarrow> world \<Rightarrow> addr list \<times> world" where
  "new_stubs [] w = ([], w)"
| "new_stubs (u # us) w =
     (case new_stub u w of (p, w1) \<Rightarrow>
        (case new_stubs us w1 of (ps, w2) \<Rightarrow> (p # ps, w2)))"

definition new_array :: "addr list \<Rightarrow> world \<Rightarrow> addr \<times> world" where
  "new_array ps w =
     (next_arr w, w\<lparr>arrs := (arrs w)(next_arr w := ps), next_arr := Suc (next_arr w)\<rparr>)"

definition set_title :: "addr \<Rightarrow> string option \<Rightarrow> world \<Rightarrow> world" where
  "set_title p t w = w\<lparr>objs := (objs w)(p := (objs w p)\<lparr>title := t\<rparr>)\<rparr>"

definition set_children :: "addr \<Rightarrow> addr option \<Rightarrow> world \<Rightarrow> world" where
  "set_children p a w = w\<lparr>objs := (objs w)(p := (objs w p)\<lparr>children := a\<rparr>)\<rparr>"

subsection \<open>The body of crawl\<close>

text \<open>
  The callback of \<open>page.children.forEach\<close> in the branch that reuses a route:
  \<open>c.title = item ? item.title : ''\<close> with \<open>item = crawledPages.get(c.url)\<close>.
\<close>

definition fill_in :: "world \<Rightarrow> addr \<Rightarrow> world" where
  "fill_in w c =
     set_title c
       (case map_of (crawledPages w) (url (objs w c)) of
          Some item \<Rightarrow> title (objs w item)
        | None \<Rightarrow> Some [])
       w"

text \<open>
  The branch \<open>crawledPages.has(page.url)\<close>, with \<open>item\<close> the entry found. Iterating an
  \<open>undefined\<close> children field throws a \<open>TypeError\<close>. No statement of the program
  writes to an array after it is made, so \<open>forEach\<close> sees the array as it was read.
\<close>

definition reuse_route :: "world \<Rightarrow> addr \<Rightarrow> addr \<Rightarrow> (error \<times> world) + world" where
  "reuse_route w page item =
     (let w1 = set_title page (title (objs w item)) w;
          w2 = set_children page (children (objs w1 item)) w1
      in case children (objs w2 page) of
           None \<Rightarrow> Inl (TypeError, w2)
         | Some a \<Rightarrow> Inr (foldl fill_in w2 (arrs w2 a)))"

text \<open>The callbacks of \<open>iframes.forEach\<close> and \<open>foundcookies.cookies.forEach\<close>.\<close>

definition note_iframe :: "string \<Rightarrow> world \<Rightarrow> string \<Rightarrow> world" where
  "note_iframe page_url w iframe =
     (if \<not> map_has (crawledIframes w) iframe
      then w\<lparr>crawledIframes :=
               map_set iframe \<lparr>iframe_src = iframe, iframe_firstFound = page_url\<rparr>
                 (crawledIframes w)\<rparr>
      else w)"

definition note_cookie :: "string \<Rightarrow> world \<Rightarrow> cookie \<Rightarrow> world" where
  "note_cookie page_url w c =
     (if \<not> map_has (crawledCookies w) (name c)
      then w\<lparr>crawledCookies :=
               map_set (name c) (c\<lparr>firstFound := Some page_url\<rparr>) (crawledCookies w)\<rparr>
      else w)"

text \<open>
  The \<open>else\<close> branch up to \<open>newPage.close()\<close>: the page is loaded (the call is
  recorded in \<open>loads\<close>), the anchors are collected and the start URL is filtered out,
  title and children are assigned, iframes and cookies are noted and the page is
  cached. A failure of the navigation or of the anchor script is thrown: nothing is
  caught in \<open>crawl\<close>. \<open>page.url\<close> is read once: no statement assigns a \<open>url\<close>.
  \<open>browser.newPage()\<close> and \<open>newPage.goto\<close> are one step of the browser, which
  fails or gives the loaded page; the later calls on a loaded page (the title, the
  iframe script, \<open>Network.getAllCookies\<close>, \<open>close\<close>) are taken to succeed.
  \<open>console.log\<close> is left out.
\<close>

definition load_page :: "config \<Rightarrow> browser \<Rightarrow> world \<Rightarrow> addr \<Rightarrow> (error \<times> world) + world" where
  "load_page cfg br w page =
     (let page_url = url (objs w page);
          res = goto br (map fst (loads w)) page_url;
          w1 = w\<lparr>loads := loads w @ [(page_url, res)]\<rparr>
      in case res of
           Inl e \<Rightarrow> Inl (e, w1)
         | Inr pg \<Rightarrow>
            (case collectAllSameOriginAnchorsDeep (url_origin br) pg True of
               Inl e \<Rightarrow> Inl (e, w1)
             | Inr found \<Rightarrow>
                (let anchors = filter (\<lambda>a. a \<noteq> URL cfg) found;
                     w2 = set_title page (Some (document_title pg)) w1
                 in case new_stubs anchors w2 of (ps, w3) \<Rightarrow>
                    (case new_array ps w3 of (a, w4) \<Rightarrow>
                       (let w5 = set_children page (Some a) w4;
                            w6 = foldl (note_iframe page_url) w5 (findAllIframes pg);
                            w7 = foldl (note_cookie page_url) w6 (all_cookies pg)
                        in Inr (w7\<lparr>crawledPages := map_set page_url page (crawledPages w7)\<rparr>))))))"

subsection \<open>crawl\<close>

text \<open>
  \<open>crawl(browser, page, depth)\<close>, and the loop \<open>for (const childPage of page.children)\<close>
  as \<open>crawl_each\<close>. The result is the world after the call, or the error thrown and
  the world at that moment. \<open>crawledPages.has(page.url)\<close> followed by
  \<open>crawledPages.get(page.url)\<close> is one lookup: \<open>Some item\<close> when the key is present.
\<close>

function crawl :: "config \<Rightarrow> browser \<Rightarrow> world \<Rightarrow> addr \<Rightarrow> nat \<Rightarrow> (error \<times> world) + world"
  and crawl_each :: "config \<Rightarrow> browser \<Rightarrow> world \<Rightarrow> addr list \<Rightarrow> nat \<Rightarrow> (error \<times> world) + world"
  where
  "crawl cfg br w page depth =
     (if int depth > maxDepth cfg then Inr w
      else
        (case map_of (crawledPages w) (url (objs w page)) of
           Some item \<Rightarrow> reuse_route w page item
         | None \<Rightarrow>
            (case load_page cfg br w page of
               Inl ew \<Rightarrow> Inl ew
             | Inr w' \<Rightarrow>
                (case children (objs w' page) of
                   None \<Rightarrow> Inl (TypeError, w')
                 | Some a \<Rightarrow> crawl_each cfg br w' (arrs w' a) (depth + 1)))))"
| "crawl_each cfg br w [] depth = Inr w"
| "crawl_each cfg br w (childPage # rest) depth =
     (case crawl cfg br w childPage depth of
        Inl ew \<Rightarrow> Inl ew
      | Inr w' \<Rightarrow> crawl_each cfg br w' rest depth)"
  by pat_completeness auto
termination
  by (relation "measures
        [\<lambda>x. case x of
               Inl (cfg, br, w, page, depth) \<Rightarrow> 2 * nat (maxDepth cfg + 1 - int depth)
             | Inr (cfg, br, w, cs, depth) \<Rightarrow> 2 * nat (maxDepth cfg + 1 - int depth) + 1,
         \<lambda>x. case x of Inl _ \<Rightarrow> 0 | Inr (cfg, br, w, cs, depth) \<Rightarrow> length cs]")
    auto

declare crawl.simps [simp del]

text \<open>
  The main function: \<open>const root = {url: URL}; await crawl(browser, root)\<close>, from
  empty maps.
\<close>

definition initial :: "config \<Rightarrow> world" where
  "initial cfg =
     \<lparr>objs = (\<lambda>_. \<lparr>url = [], title = None, children = None\<rparr>)
               (0 := \<lparr>url = URL cfg, title = None, children = None\<rparr>),
      next_obj = 1,
      arrs = (\<lambda>_. []),
      next_arr = 0,
      crawledPages = [],
      crawledCookies = [],
      crawledIframes = [],
      loads = []\<rparr>"

definition run :: "config \<Rightarrow> browser \<Rightarrow> (error \<times> world) + world" where
  "run cfg br = crawl cfg br (initial cfg) 0 0"

subsection \<open>crawl with a bound on the call stack\<close>

text \<open>
  The same function with the number of nested \<open>crawl\<close> frames bounded by \<open>k\<close>:
  \<open>None\<close> when a call would need a frame more. It serves to state how deep the
  recursion goes.
\<close>

fun crawl_fuel ::
    "nat \<Rightarrow> config \<Rightarrow> browser \<Rightarrow> world \<Rightarrow> addr \<Rightarrow> nat \<Rightarrow> ((error \<times> world) + world) option"
  and crawl_each_fuel ::
    "nat \<Rightarrow> config \<Rightarrow> browser \<Rightarrow> world \<Rightarrow> addr list \<Rightarrow> nat \<Rightarrow> ((error \<times> world) + world) option"
  where
  "crawl_fuel 0 cfg br w page depth = None"
| "crawl_fuel (Suc k) cfg br w page depth =
     (if int depth > maxDepth cfg then Some (Inr w)
      else
        (case map_of (crawledPages w) (url (objs w page)) of
           Some item \<Rightarrow> Some (reuse_route w page item)
         | None \<Rightarrow>
            (case load_page cfg br w page of
               Inl ew \<Rightarrow> Some (Inl ew)
             | Inr w' \<Rightarrow>
                (case children (objs w' page) of
                   None \<Rightarrow> Some (Inl (TypeError, w'))
                 | Some a \<Rightarrow> crawl_each_fuel k cfg br w' (arrs w' a) (depth + 1)))))"
| "crawl_each_fuel k cfg br w [] depth = Some (Inr w)"
| "crawl_each_fuel k cfg br w (childPage # rest) depth =
     (case crawl_fuel k cfg br w childPage depth of
        None \<Rightarrow> None
      | Some (Inl ew) \<Rightarrow> Some (Inl ew)
      | Some (Inr w') \<Rightarrow> crawl_each_fuel k cfg br w' rest depth)"

section \<open>Notions used to state the properties\<close>

text \<open>The world a call ends in, returned or thrown.\<close>

definition final_world :: "(error \<times> world) + world \<Rightarrow> world" where
  "final_world r = (case r of Inl (e, w) \<Rightarrow> w | Inr w \<Rightarrow> w)"

text \<open>A page object as \<open>({url})\<close> makes it.\<close>

definition stub :: "string \<Rightarrow> page_node" where
  "stub u = \<lparr>url = u, title = None, children = None\<rparr>"

text \<open>The links \<open>crawl\<close> keeps of those the page script found.\<close>

definition anchors_of :: "config \<Rightarrow> string list \<Rightarrow> string list" where
  "anchors_of cfg found = filter (\<lambda>a. a \<noteq> URL cfg) found"

text \<open>The title the registry knows for the URL of object \<open>c\<close>; the empty string when
  the URL is not registered.\<close>

definition known_title :: "world \<Rightarrow> addr \<Rightarrow> string option" where
  "known_title w c =
     (case map_of (crawledPages w) (url (objs w c)) of
        Some item \<Rightarrow> title (objs w item)
      | None \<Rightarrow> Some [])"

text \<open>The two artifact registries as functions of the maps alone.\<close>

definition add_iframe ::
  "string \<Rightarrow> (string \<times> iframedata) list \<Rightarrow> string \<Rightarrow> (string \<times> iframedata) list" where
  "add_iframe u m x =
     (if map_has m x then m else map_set x \<lparr>iframe_src = x, iframe_firstFound = u\<rparr> m)"

definition add_cookie ::
  "string \<Rightarrow> (string \<times> cookie) list \<Rightarrow> cookie \<Rightarrow> (string \<times> cookie) list" where
  "add_cookie u m c =
     (if map_has m (name c) then m else map_set (name c) (c\<lparr>firstFound := Some u\<rparr>) m)"

text \<open>
  The worlds a run passes through between two visits: the initial world, and the world
  after a page was loaded or a route reused, for a page object that exists.
\<close>

inductive reach :: "config \<Rightarrow> browser \<Rightarrow> world \<Rightarrow> bool" for cfg :: config and br :: browser where
  reach_initial: "reach cfg br (initial cfg)"
| reach_load:
    "reach cfg br w \<Longrightarrow> page < next_obj w
     \<Longrightarrow> map_of (crawledPages w) (url (objs w page)) = None
     \<Longrightarrow> load_page cfg br w page = Inr w' \<Longrightarrow> reach cfg br w'"
| reach_reuse:
    "reach cfg br w \<Longrightarrow> page < next_obj w
     \<Longrightarrow> map_of (crawledPages w) (url (objs w page)) = Some item
     \<Longrightarrow> reuse_route w page item = Inr w' \<Longrightarrow> reach cfg br w'"

text \<open>What every world between two visits satisfies: a registered URL leads to an allocated
  object of that URL with title and children set, and children fields and arrays refer
  to allocated arrays and objects.\<close>

definition heap_ok :: "world \<Rightarrow> bool" where
  "heap_ok w \<longleftrightarrow>
     (\<forall>u a. map_of (crawledPages w) u = Some a \<longrightarrow>
        a < next_obj w \<and> url (objs w a) = u \<and> title (objs w a) \<noteq> None
        \<and> children (objs w a) \<noteq> None)
   \<and> (\<forall>p a. children (objs w p) = Some a \<longrightarrow> p < next_obj w \<and> a < next_arr w)
   \<and> (\<forall>a c. c \<in> set (arrs w a) \<longrightarrow> a < next_arr w \<and> c < next_obj w)"

text \<open>The worlds in which a run is aborted: the load of an unregistered page failed.\<close>

inductive aborted :: "config \<Rightarrow> browser \<Rightarrow> error \<Rightarrow> world \<Rightarrow> bool" for cfg :: config and br :: browser where
  aborted_load:
    "reach cfg br w \<Longrightarrow> page < next_obj w
     \<Longrightarrow> map_of (crawledPages w) (url (objs w page)) = None
     \<Longrightarrow> load_page cfg br w page = Inl (e, w') \<Longrightarrow> aborted cfg br e w'"

text \<open>The outcome of a call that started in world \<open>w\<close>.\<close>

definition visit_ok :: "config \<Rightarrow> browser \<Rightarrow> world \<Rightarrow> (error \<times> world) + world \<Rightarrow> bool" where
  "visit_ok cfg br w r =
     (case r of
        Inr w' \<Rightarrow> reach cfg br w' \<and> next_obj w \<le> next_obj w'
      | Inl (e, w') \<Rightarrow> aborted cfg br e w')"

text \<open>The page objects \<open>k\<close> links below object \<open>p\<close> in the tree that is written out.\<close>

fun nodes_at :: "world \<Rightarrow> nat \<Rightarrow> addr \<Rightarrow> addr list" where
  "nodes_at w 0 p = [p]"
| "nodes_at w (Suc k) p =
     (case children (objs w p) of
        None \<Rightarrow> []
      | Some a \<Rightarrow> concat (map (nodes_at w k) (arrs w a)))"

text \<open>All array slots of a world, in the order of allocation.\<close>

definition slots :: "world \<Rightarrow> addr list" where
  "slots w = concat (map (arrs w) [0..<next_arr w])"

text \<open>
  The tree below object \<open>p\<close> as \<open>JSON.stringify\<close> writes it, followed for \<open>k\<close>
  levels; the children of an object at level \<open>k\<close> are left out.
\<close>

datatype page_tree = PageTree string "string option" "page_tree list option"

fun tree_of :: "nat \<Rightarrow> world \<Rightarrow> addr \<Rightarrow> page_tree" where
  "tree_of 0 w p = PageTree (url (objs w p)) (title (objs w p)) None"
| "tree_of (Suc k) w p =
     PageTree (url (objs w p)) (title (objs w p))
       (case children (objs w p) of
          None \<Rightarrow> None
        | Some a \<Rightarrow> Some (map (tree_of k w) (arrs w a)))"

text \<open>
  The links that the page script returned for each page loaded so far leave out the URL
  that was asked for. The script drops the links equal to \<open>location.href\<close>, so this
  holds whenever the browser shows the URL it was asked to load.
\<close>

definition own_url_excluded :: "browser \<Rightarrow> (string \<times> (error + loaded_page)) list \<Rightarrow> bool" where
  "own_url_excluded br log =
     list_all (\<lambda>(u, res).
        case res of
          Inl _ \<Rightarrow> True
        | Inr pg \<Rightarrow>
           (case collectAllSameOriginAnchorsDeep (url_origin br) pg True of
              Inl _ \<Rightarrow> True
            | Inr found \<Rightarrow> u \<notin> set found)) log"

text \<open>
  The sightings of a run, in the order of the traversal: each cookie returned after a
  load, and each iframe source found in a loaded page, with the URL of the page.
\<close>

definition cookie_sightings :: "(string \<times> (error + loaded_page)) list \<Rightarrow> (string \<times> cookie) list" where
  "cookie_sightings log =
     concat (map (\<lambda>(u, res). case res of Inl _ \<Rightarrow> [] | Inr pg \<Rightarrow> map (Pair u) (all_cookies pg)) log)"

definition iframe_sightings :: "(string \<times> (error + loaded_page)) list \<Rightarrow> (string \<times> string) list" where
  "iframe_sightings log =
     concat (map (\<lambda>(u, res). case res of Inl _ \<Rightarrow> [] | Inr pg \<Rightarrow> map (Pair u) (findAllIframes pg)) log)"

section \<open>Example sites\<close>

text \<open>A document of anchors and iframes, with its cookies.\<close>

definition page_with ::
  "string \<Rightarrow> string \<Rightarrow> string list \<Rightarrow> string list \<Rightarrow> cookie list \<Rightarrow> loaded_page" where
  "page_with u t links frames cookies =
     \<lparr>location_href = u, document_title = t,
      document_elements =
        map (\<lambda>h. Element ''a'' h [] None) links @ map (\<lambda>s. Element ''iframe'' [] s None) frames,
      all_cookies = cookies\<rparr>"

text \<open>
  The scenario of the specification: \<open>a\<close> links to \<open>b\<close> and \<open>c\<close>, \<open>b\<close> links to
  \<open>a\<close>, \<open>c\<close> links to \<open>b\<close>; maximum depth 1. The three titles are parameters.
\<close>

definition example_site :: "string \<Rightarrow> string \<Rightarrow> string \<Rightarrow> browser" where
  "example_site ta tb tc =
     \<lparr>goto = (\<lambda>hist u.
        if u = ''https://example.com/a''
          then Inr (page_with u ta [''https://example.com/b'', ''https://example.com/c''] [] [])
        else if u = ''https://example.com/b''
          then Inr (page_with u tb [''https://example.com/a''] [] [])
        else if u = ''https://example.com/c''
          then Inr (page_with u tc [''https://example.com/b''] [] [])
        else Inl NavigationError),
      url_origin = (\<lambda>u. Some (take 19 u))\<rparr>"

definition example_cfg :: config where
  "example_cfg = \<lparr>URL = ''https://example.com/a'', maxDepth = 1\<rparr>"

text \<open>
  A site on which a URL is met twice within the depth bound: \<open>/a\<close> links to \<open>/b\<close>
  and \<open>/c\<close>, \<open>/b\<close> to \<open>/d\<close>, \<open>/c\<close> to \<open>/b\<close>, \<open>/d\<close> to \<open>/e\<close>; maximum depth 2.
  Every other URL fails to load.
\<close>

definition shared_site :: browser where
  "shared_site =
     \<lparr>goto = (\<lambda>hist u.
        if u = ''/a'' then Inr (page_with u ''A'' [''/b'', ''/c''] [] [])
        else if u = ''/b'' then Inr (page_with u ''B'' [''/d''] [] [])
        else if u = ''/c'' then Inr (page_with u ''C'' [''/b''] [] [])
        else if u = ''/d'' then Inr (page_with u ''D'' [''/e''] [] [])
        else Inl NavigationError),
      url_origin = (\<lambda>u. Some [])\<rparr>"

definition shared_cfg :: config where
  "shared_cfg = \<lparr>URL = ''/a'', maxDepth = 2\<rparr>"

text \<open>The same site crawled to depth 3, where the load of \<open>/e\<close> fails.\<close>

definition deep_cfg :: config where
  "deep_cfg = \<lparr>URL = ''/a'', maxDepth = 3\<rparr>"


text \<open>
  A site on which a URL is met again before its children were visited: \<open>/a\<close> links
  to \<open>/c\<close> and \<open>/b\<close>, \<open>/c\<close> to \<open>/b\<close>, \<open>/b\<close> to \<open>/d\<close> and \<open>/c\<close>;
  maximum depth 2. \<open>/b\<close> is loaded below \<open>/c\<close>, at depth 2, and met again as the
  second child of the seed.
\<close>

definition order_site :: browser where
  "order_site =
     \<lparr>goto = (\<lambda>hist u.
        if u = ''/a'' then Inr (page_with u ''A'' [''/c'', ''/b''] [] [])
        else if u = ''/c'' then Inr (page_with u ''C'' [''/b''] [] [])
        else if u = ''/b'' then Inr (page_with u ''B'' [''/d'', ''/c''] [] [])
        else Inl NavigationError),
      url_origin = (\<lambda>u. Some [])\<rparr>"

text \<open>
  A site explored three levels below a URL that is met twice: \<open>/a\<close> links to
  \<open>/b\<close> and \<open>/c\<close>, \<open>/b\<close> to \<open>/d\<close>, \<open>/c\<close> to \<open>/b\<close>, \<open>/d\<close> to \<open>/e\<close>, and
  \<open>/e\<close> has no links; maximum depth 3.
\<close>

definition level_site :: browser where
  "level_site =
     \<lparr>goto = (\<lambda>hist u.
        if u = ''/a'' then Inr (page_with u ''A'' [''/b'', ''/c''] [] [])
        else if u = ''/b'' then Inr (page_with u ''B'' [''/d''] [] [])
        else if u = ''/c'' then Inr (page_with u ''C'' [''/b''] [] [])
        else if u = ''/d'' then Inr (page_with u ''D'' [''/e''] [] [])
        else if u = ''/e'' then Inr (page_with u ''E'' [] [] [])
        else Inl NavigationError),
      url_origin = (\<lambda>u. Some [])\<rparr>"

text \<open>
  A site on which a page fails to load after it was met in a reused array: \<open>/a\<close>
  links to \<open>/b\<close>, \<open>/b\<close> to \<open>/c\<close> and \<open>/d\<close>, \<open>/c\<close> to \<open>/b\<close>; \<open>/d\<close> and
  every other URL fail to load; maximum depth 3.
\<close>

definition fail_site :: browser where
  "fail_site =
     \<lparr>goto = (\<lambda>hist u.
        if u = ''/a'' then Inr (page_with u ''A'' [''/b''] [] [])
        else if u = ''/b'' then Inr (page_with u ''B'' [''/c'', ''/d''] [] [])
        else if u = ''/c'' then Inr (page_with u ''C'' [''/b''] [] [])
        else Inl NavigationError),
      url_origin = (\<lambda>u. Some [])\<rparr>"

text \<open>
  A site whose pages link to themselves and to the seed: \<open>/a\<close> links to \<open>/a\<close> and
  \<open>/b\<close>; \<open>/b\<close> to \<open>/b\<close>, \<open>/a\<close> and \<open>/c\<close>; \<open>/c\<close> to \<open>/a\<close>, \<open>/b\<close> and \<open>/c\<close>.
\<close>

definition loop_site :: browser where
  "loop_site =
     \<lparr>goto = (\<lambda>hist u.
        if u = ''/a'' then Inr (page_with u ''A'' [''/a'', ''/b''] [] [])
        else if u = ''/b'' then Inr (page_with u ''B'' [''/b'', ''/a'', ''/c''] [] [])
        else if u = ''/c'' then Inr (page_with u ''C'' [''/a'', ''/b'', ''/c''] [] [])
        else Inl NavigationError),
      url_origin = (\<lambda>u. Some [])\<rparr>"

text \<open>
  A site with cookies: \<open>/a\<close> links to \<open>/b\<close>; both set a cookie \<open>session\<close>, with
  different values, and \<open>/b\<close> also a cookie \<open>lang\<close>. And a site with iframes: \<open>/a\<close>
  embeds \<open>/ad\<close>, and \<open>/b\<close> embeds \<open>/map\<close> and \<open>/ad\<close>.
\<close>

definition cookie_site :: browser where
  "cookie_site =
     \<lparr>goto = (\<lambda>hist u.
        if u = ''/a'' then
          Inr (page_with u ''A'' [''/b''] []
                 [\<lparr>name = ''session'', attributes = [(''value'', ''1'')], firstFound = None\<rparr>])
        else if u = ''/b'' then
          Inr (page_with u ''B'' [] []
                 [\<lparr>name = ''session'', attributes = [(''value'', ''2'')], firstFound = None\<rparr>,
                  \<lparr>name = ''lang'', attributes = [(''value'', ''en'')], firstFound = None\<rparr>])
        else Inl NavigationError),
      url_origin = (\<lambda>u. Some [])\<rparr>"

definition iframe_site :: browser where
  "iframe_site =
     \<lparr>goto = (\<lambda>hist u.
        if u = ''/a'' then Inr (page_with u ''A'' [''/b''] [''/ad''] [])
        else if u = ''/b'' then Inr (page_with u ''B'' [] [''/map'', ''/ad''] [])
        else Inl NavigationError),
      url_origin = (\<lambda>u. Some [])\<rparr>"

definition cookie_cfg :: config where
  "cookie_cfg = \<lparr>URL = ''/a'', maxDepth = 1\<rparr>"

text \<open>The worlds the example runs end in.\<close>

definition example_final :: world where
  "example_final = final_world (run example_cfg (example_site ''A'' ''B'' ''C''))"

definition shared_final :: world where
  "shared_final = final_world (run shared_cfg shared_site)"

definition deep_final :: world where
  "deep_final = final_world (run deep_cfg shared_site)"

definition order_final :: world where
  "order_final = final_world (run shared_cfg order_site)"

definition loop_final :: world where
  "loop_final = final_world (run shared_cfg loop_site)"

definition level_final :: world where
  "level_final = final_world (run deep_cfg level_site)"

definition fail_final :: world where
  "fail_final = final_world (run deep_cfg fail_site)"

definition cookie_final :: world where
  "cookie_final = final_world (run cookie_cfg cookie_site)"

definition iframe_final :: world where
  "iframe_final = final_world (run cookie_cfg iframe_site)"

text \<open>
  The world of the run of \<open>order_site\<close> when the first child of the seed has been
  visited and the second (object 2) is about to be.
\<close>

definition order_before :: world where
  "order_before =
     final_world (crawl shared_cfg order_site
       (final_world (load_page shared_cfg order_site (initial shared_cfg) 0)) 1 1)"

text \<open>
  The world of the run of \<open>level_site\<close> when \<open>/b\<close> and the pages below it have been
  visited, \<open>/c\<close> (object 2) has been loaded and its child \<open>/b\<close> (object 5) is about
  to be visited.
\<close>

definition level_before :: world where
  "level_before =
     final_world (load_page deep_cfg level_site
       (final_world (crawl deep_cfg level_site
          (final_world (load_page deep_cfg level_site (initial deep_cfg) 0)) 1 1)) 2)"



definition cookie_first :: world where
  "cookie_first = final_world (load_page cookie_cfg cookie_site (initial cookie_cfg) 0)"

definition cookie_second :: world where
  "cookie_second = final_world (crawl cookie_cfg cookie_site cookie_first 1 1)"

definition iframe_first :: world where
  "iframe_first = final_world (load_page cookie_cfg iframe_site (initial cookie_cfg) 0)"

definition iframe_second :: world where
  "iframe_second = final_world (crawl cookie_cfg iframe_site iframe_first 1 1)"

section \<open>Properties\<close>

lemma final_world_simps [simp]:
  "final_world (Inr w) = w"
  "final_world (Inl (e, w)) = w"
  by (simp_all add: final_world_def)

subsection \<open>The steps of a visit\<close>

lemma update_absent: "map_of al k = None \<Longrightarrow> AList.update k v al = al @ [(k, v)]"
  by (induction al) (auto split: if_splits)

lemma new_stubs_fst: "fst (new_stubs us w) = [next_obj w ..< next_obj w + length us]"
proof (induction us arbitrary: w)
  case Nil
  then show ?case by simp
next
  case (Cons u us)
  have "[next_obj w ..< next_obj w + length (u # us)] =
        next_obj w # [Suc (next_obj w) ..< Suc (next_obj w) + length us]"
    by (subst upt_rec) simp
  then show ?case
    by (simp add: Cons.IH new_stub_def case_prod_beta del: upt_Suc)
qed

lemma new_stubs_next_obj: "next_obj (snd (new_stubs us w)) = next_obj w + length us"
  by (induction us arbitrary: w) (simp_all add: new_stub_def case_prod_beta)

lemma new_stubs_frame:
  "arrs (snd (new_stubs us w)) = arrs w \<and> next_arr (snd (new_stubs us w)) = next_arr w
   \<and> crawledPages (snd (new_stubs us w)) = crawledPages w
   \<and> crawledCookies (snd (new_stubs us w)) = crawledCookies w
   \<and> crawledIframes (snd (new_stubs us w)) = crawledIframes w
   \<and> loads (snd (new_stubs us w)) = loads w"
  by (induction us arbitrary: w) (simp_all add: new_stub_def case_prod_beta)

lemma new_stubs_objs:
  "objs (snd (new_stubs us w)) p =
     (if next_obj w \<le> p \<and> p < next_obj w + length us
      then stub (us ! (p - next_obj w)) else objs w p)"
proof (induction us arbitrary: w p)
  case Nil
  then show ?case by auto
next
  case (Cons u us)
  show ?case
    by (auto simp: Cons.IH new_stub_def stub_def nth_Cons' Suc_diff_le case_prod_beta)
qed

lemma foldl_note_iframe:
  "objs (foldl (note_iframe u) w xs) = objs w \<and> next_obj (foldl (note_iframe u) w xs) = next_obj w
   \<and> arrs (foldl (note_iframe u) w xs) = arrs w \<and> next_arr (foldl (note_iframe u) w xs) = next_arr w
   \<and> crawledPages (foldl (note_iframe u) w xs) = crawledPages w
   \<and> crawledCookies (foldl (note_iframe u) w xs) = crawledCookies w
   \<and> loads (foldl (note_iframe u) w xs) = loads w
   \<and> crawledIframes (foldl (note_iframe u) w xs) = foldl (add_iframe u) (crawledIframes w) xs"
  by (induction xs arbitrary: w) (auto simp: note_iframe_def add_iframe_def)

lemma foldl_note_cookie:
  "objs (foldl (note_cookie u) w xs) = objs w \<and> next_obj (foldl (note_cookie u) w xs) = next_obj w
   \<and> arrs (foldl (note_cookie u) w xs) = arrs w \<and> next_arr (foldl (note_cookie u) w xs) = next_arr w
   \<and> crawledPages (foldl (note_cookie u) w xs) = crawledPages w
   \<and> crawledIframes (foldl (note_cookie u) w xs) = crawledIframes w
   \<and> loads (foldl (note_cookie u) w xs) = loads w
   \<and> crawledCookies (foldl (note_cookie u) w xs) = foldl (add_cookie u) (crawledCookies w) xs"
  by (induction xs arbitrary: w) (auto simp: note_cookie_def add_cookie_def)

lemma load_page_Inr:
  assumes "load_page cfg br w page = Inr w'"
  shows "\<exists>pg found.
      goto br (map fst (loads w)) (url (objs w page)) = Inr pg
    \<and> collectAllSameOriginAnchorsDeep (url_origin br) pg True = Inr found
    \<and> loads w' = loads w @ [(url (objs w page), Inr pg)]
    \<and> crawledPages w' = map_set (url (objs w page)) page (crawledPages w)
    \<and> crawledIframes w' = foldl (add_iframe (url (objs w page))) (crawledIframes w) (findAllIframes pg)
    \<and> crawledCookies w' = foldl (add_cookie (url (objs w page))) (crawledCookies w) (all_cookies pg)
    \<and> next_obj w' = next_obj w + length (anchors_of cfg found)
    \<and> next_arr w' = Suc (next_arr w)
    \<and> arrs w' = (arrs w)(next_arr w := [next_obj w ..< next_obj w + length (anchors_of cfg found)])
    \<and> objs w' = (\<lambda>p. if p = page then
                        (if next_obj w \<le> p \<and> p < next_obj w + length (anchors_of cfg found)
                         then stub (anchors_of cfg found ! (p - next_obj w))
                         else (objs w p)\<lparr>title := Some (document_title pg)\<rparr>)\<lparr>children := Some (next_arr w)\<rparr>
                      else if next_obj w \<le> p \<and> p < next_obj w + length (anchors_of cfg found)
                         then stub (anchors_of cfg found ! (p - next_obj w))
                      else objs w p)"
proof -
  from assms obtain pg where pg: "goto br (map fst (loads w)) (url (objs w page)) = Inr pg"
    by (auto simp: load_page_def Let_def split: sum.splits)
  from assms pg obtain found where
    found: "collectAllSameOriginAnchorsDeep (url_origin br) pg True = Inr found"
    by (auto simp: load_page_def Let_def split: sum.splits)
  define w2 where "w2 = set_title page (Some (document_title pg)) (w\<lparr>loads := loads w @ [(url (objs w page), Inr pg)]\<rparr>)"
  define w3 where "w3 = snd (new_stubs (anchors_of cfg found) w2)"
  define ps where "ps = fst (new_stubs (anchors_of cfg found) w2)"
  define w5 where "w5 = set_children page (Some (next_arr w3)) (snd (new_array ps w3))"
  define w7 where "w7 = foldl (note_cookie (url (objs w page))) (foldl (note_iframe (url (objs w page))) w5 (findAllIframes pg)) (all_cookies pg)"
  have w': "w' = w7\<lparr>crawledPages := map_set (url (objs w page)) page (crawledPages w7)\<rparr>"
    using assms pg found
    by (simp add: load_page_def Let_def w7_def w5_def ps_def w3_def w2_def anchors_of_def new_array_def split: prod.splits)
  have 2: "next_obj w2 = next_obj w" "next_arr w2 = next_arr w" "arrs w2 = arrs w"
      "crawledPages w2 = crawledPages w" "crawledCookies w2 = crawledCookies w"
      "crawledIframes w2 = crawledIframes w" "loads w2 = loads w @ [(url (objs w page), Inr pg)]"
      "objs w2 = (objs w)(page := (objs w page)\<lparr>title := Some (document_title pg)\<rparr>)"
    by (simp_all add: w2_def set_title_def)
  have 3: "next_obj w3 = next_obj w + length (anchors_of cfg found)" "next_arr w3 = next_arr w" "arrs w3 = arrs w"
      "crawledPages w3 = crawledPages w" "crawledCookies w3 = crawledCookies w"
      "crawledIframes w3 = crawledIframes w" "loads w3 = loads w @ [(url (objs w page), Inr pg)]"
    by (simp_all add: w3_def new_stubs_next_obj new_stubs_frame 2)
  have ps: "ps = [next_obj w ..< next_obj w + length (anchors_of cfg found)]"
    by (simp add: ps_def new_stubs_fst 2)
  have 5: "next_obj w5 = next_obj w + length (anchors_of cfg found)" "next_arr w5 = Suc (next_arr w)"
      "arrs w5 = (arrs w)(next_arr w := ps)"
      "crawledPages w5 = crawledPages w" "crawledCookies w5 = crawledCookies w"
      "crawledIframes w5 = crawledIframes w" "loads w5 = loads w @ [(url (objs w page), Inr pg)]"
      "objs w5 = (objs w3)(page := (objs w3 page)\<lparr>children := Some (next_arr w)\<rparr>)"
    by (simp_all add: w5_def set_children_def new_array_def 3)
  have o3: "objs w3 p = (if next_obj w \<le> p \<and> p < next_obj w + length (anchors_of cfg found)
      then stub (anchors_of cfg found ! (p - next_obj w)) else objs w2 p)" for p
    by (simp add: w3_def new_stubs_objs 2)
  have 7: "next_obj w7 = next_obj w5" "next_arr w7 = next_arr w5" "arrs w7 = arrs w5" "objs w7 = objs w5"
      "crawledPages w7 = crawledPages w5" "loads w7 = loads w5"
      "crawledIframes w7 = foldl (add_iframe (url (objs w page))) (crawledIframes w5) (findAllIframes pg)"
      "crawledCookies w7 = foldl (add_cookie (url (objs w page))) (crawledCookies w5) (all_cookies pg)"
    by (simp_all add: w7_def foldl_note_cookie foldl_note_iframe)
  have objs: "objs w' = (\<lambda>p. if p = page then
                        (if next_obj w \<le> p \<and> p < next_obj w + length (anchors_of cfg found)
                         then stub (anchors_of cfg found ! (p - next_obj w))
                         else (objs w p)\<lparr>title := Some (document_title pg)\<rparr>)\<lparr>children := Some (next_arr w)\<rparr>
                      else if next_obj w \<le> p \<and> p < next_obj w + length (anchors_of cfg found)
                         then stub (anchors_of cfg found ! (p - next_obj w))
                      else objs w p)"
    by (rule ext) (simp add: w' 7 5 o3 2)
  show ?thesis
    using pg found objs by (simp add: w' 7 5 ps)
qed

lemma load_page_Inr_cases:
  assumes "load_page cfg br w page = Inr w'"
  shows "\<exists>pg found. goto br (map fst (loads w)) (url (objs w page)) = Inr pg
           \<and> collectAllSameOriginAnchorsDeep (url_origin br) pg True = Inr found"
  using load_page_Inr[OF assms] by auto

lemma load_page_fields:
  assumes load: "load_page cfg br w page = Inr w'"
    and g: "goto br (map fst (loads w)) (url (objs w page)) = Inr pg"
    and c: "collectAllSameOriginAnchorsDeep (url_origin br) pg True = Inr found"
  shows "loads w' = loads w @ [(url (objs w page), Inr pg)]"
    and "crawledPages w' = map_set (url (objs w page)) page (crawledPages w)"
    and "crawledIframes w' = foldl (add_iframe (url (objs w page))) (crawledIframes w) (findAllIframes pg)"
    and "crawledCookies w' = foldl (add_cookie (url (objs w page))) (crawledCookies w) (all_cookies pg)"
    and "next_obj w' = next_obj w + length (anchors_of cfg found)"
    and "next_arr w' = Suc (next_arr w)"
    and "arrs w' = (arrs w)(next_arr w := [next_obj w ..< next_obj w + length (anchors_of cfg found)])"
    and "page < next_obj w \<Longrightarrow> objs w' p =
           (if p = page then
              (objs w p)\<lparr>title := Some (document_title pg), children := Some (next_arr w)\<rparr>
            else if next_obj w \<le> p \<and> p < next_obj w + length (anchors_of cfg found)
              then stub (anchors_of cfg found ! (p - next_obj w))
            else objs w p)"
  using load_page_Inr[OF load] g c by auto

lemma load_page_Inl:
  assumes "load_page cfg br w page = Inl (e, w')"
  shows "w' = w\<lparr>loads := loads w @ [(url (objs w page), goto br (map fst (loads w)) (url (objs w page)))]\<rparr>
    \<and> (goto br (map fst (loads w)) (url (objs w page)) = Inl e
       \<or> (\<exists>pg. goto br (map fst (loads w)) (url (objs w page)) = Inr pg
              \<and> collectAllSameOriginAnchorsDeep (url_origin br) pg True = Inl e))"
  using assms
  by (auto simp: load_page_def Let_def new_array_def split: sum.splits prod.splits)

lemma foldl_fill_in_frame:
  "next_obj (foldl fill_in w cs) = next_obj w \<and> arrs (foldl fill_in w cs) = arrs w
   \<and> next_arr (foldl fill_in w cs) = next_arr w
   \<and> crawledPages (foldl fill_in w cs) = crawledPages w
   \<and> crawledCookies (foldl fill_in w cs) = crawledCookies w
   \<and> crawledIframes (foldl fill_in w cs) = crawledIframes w
   \<and> loads (foldl fill_in w cs) = loads w
   \<and> url (objs (foldl fill_in w cs) p) = url (objs w p)
   \<and> children (objs (foldl fill_in w cs) p) = children (objs w p)"
  by (induction cs arbitrary: w) (simp_all add: fill_in_def set_title_def)

lemma foldl_fill_in_objs:
  assumes reg: "\<forall>u a. map_of (crawledPages w) u = Some a \<longrightarrow> url (objs w a) = u"
  shows "objs (foldl fill_in w cs) p =
           (if p \<in> set cs then (objs w p)\<lparr>title := known_title w p\<rparr> else objs w p)"
proof (induction cs arbitrary: p rule: rev_induct)
  case Nil
  then show ?case by simp
next
  case (snoc c cs)
  let ?m = "foldl fill_in w cs"
  have fr: "crawledPages ?m = crawledPages w" "\<And>q. url (objs ?m q) = url (objs w q)"
    using foldl_fill_in_frame by simp_all
  have entry: "title (objs ?m i) = title (objs w i)"
    if "map_of (crawledPages w) (url (objs w c)) = Some i" for i
  proof (cases "i \<in> set cs")
    case True
    have "url (objs w i) = url (objs w c)" using reg that by simp
    then show ?thesis using True that by (simp add: snoc.IH known_title_def)
  next
    case False
    then show ?thesis by (simp add: snoc.IH)
  qed
  have kt: "(case map_of (crawledPages ?m) (url (objs ?m c)) of
               Some item \<Rightarrow> title (objs ?m item) | None \<Rightarrow> Some []) = known_title w c"
    by (simp add: fr known_title_def entry split: option.splits)
  have "objs (fill_in ?m c) p =
          (if p = c then (objs ?m c)\<lparr>title := known_title w c\<rparr> else objs ?m p)"
    unfolding kt[symmetric] by (simp add: fill_in_def set_title_def)
  then show ?case
    by (simp add: snoc.IH)
qed

lemma reuse_route_effect:
  assumes reg: "\<forall>u a. map_of (crawledPages w) u = Some a \<longrightarrow> url (objs w a) = u"
    and hit: "map_of (crawledPages w) (url (objs w page)) = Some item"
    and arr: "children (objs w item) = Some a"
  shows "\<exists>w'. reuse_route w page item = Inr w'
     \<and> next_obj w' = next_obj w \<and> arrs w' = arrs w \<and> next_arr w' = next_arr w
     \<and> crawledPages w' = crawledPages w \<and> crawledCookies w' = crawledCookies w
     \<and> crawledIframes w' = crawledIframes w \<and> loads w' = loads w
     \<and> (\<forall>p. url (objs w' p) = url (objs w p))
     \<and> (\<forall>p. children (objs w' p) = (if p = page then Some a else children (objs w p)))
     \<and> (\<forall>p. title (objs w' p) =
            (if p \<in> set (arrs w a) then known_title w p
             else if p = page then title (objs w item) else title (objs w p)))"
proof -
  define w2 where "w2 = set_children page (Some a) (set_title page (title (objs w item)) w)"
  have c1: "children (objs (set_title page (title (objs w item)) w) item) = Some a"
    using arr by (auto simp: set_title_def)
  have 2: "next_obj w2 = next_obj w" "arrs w2 = arrs w" "next_arr w2 = next_arr w"
      "crawledPages w2 = crawledPages w" "crawledCookies w2 = crawledCookies w"
      "crawledIframes w2 = crawledIframes w" "loads w2 = loads w"
      "objs w2 = (objs w)(page := (objs w page)\<lparr>title := title (objs w item), children := Some a\<rparr>)"
    by (simp_all add: w2_def set_title_def set_children_def)
  have rr: "reuse_route w page item = Inr (foldl fill_in w2 (arrs w a))"
    unfolding reuse_route_def Let_def c1 w2_def[symmetric] by (simp add: 2)
  have reg2: "\<forall>u b. map_of (crawledPages w2) u = Some b \<longrightarrow> url (objs w2 b) = u"
    using reg by (simp add: 2)
  have item_title: "title (objs w2 i) = title (objs w i)"
    if "map_of (crawledPages w) u = Some i" for u i
  proof (cases "i = page")
    case True
    with reg that have "url (objs w page) = u" by simp
    with hit that True have "item = page" by simp
    then show ?thesis using True by (simp add: 2)
  next
    case False
    then show ?thesis by (simp add: 2)
  qed
  have url2: "url (objs w2 q) = url (objs w q)" for q
    by (simp add: 2)
  have kt: "known_title w2 p = known_title w p" for p
    unfolding known_title_def url2 \<open>crawledPages w2 = crawledPages w\<close>
    by (cases "map_of (crawledPages w) (url (objs w p))") (simp_all add: item_title)
  have kpage: "known_title w page = title (objs w item)"
    by (simp add: known_title_def hit)
  show ?thesis
    using foldl_fill_in_frame[of w2 "arrs w a"] 
    by (simp add: rr foldl_fill_in_objs[OF reg2] 2 kt kpage)
qed

lemma reuse_route_registries:
  "crawledCookies (final_world (reuse_route w page item)) = crawledCookies w
   \<and> crawledIframes (final_world (reuse_route w page item)) = crawledIframes w"
  using foldl_fill_in_frame
  by (simp add: reuse_route_def Let_def set_title_def set_children_def split: option.splits)

lemma crawl_reuse:
  assumes depth: "int depth \<le> maxDepth cfg"
    and hit: "map_of (crawledPages w) (url (objs w page)) = Some item"
  shows "crawl cfg br w page depth = reuse_route w page item"
  using assms by (simp add: crawl.simps)



subsection \<open>The links found in a page\<close>

lemma set_foldl_seen:
  "set (foldl (\<lambda>seen x. if x \<in> set seen then seen else seen @ [x]) acc xs) = set acc \<union> set xs"
  by (induction xs arbitrary: acc) auto

lemma set_array_from_set: "set (array_from_set xs) = set xs"
  by (simp add: array_from_set_def set_foldl_seen)

lemma distinct_foldl_seen:
  "distinct acc \<Longrightarrow> distinct (foldl (\<lambda>seen x. if x \<in> set seen then seen else seen @ [x]) acc xs)"
  by (induction xs arbitrary: acc) auto

lemma distinct_array_from_set: "distinct (array_from_set xs)"
  by (simp add: array_from_set_def distinct_foldl_seen)

lemma filter_same_origin_subset:
  "filter_same_origin origin so loc els = Inr r \<Longrightarrow> set r \<subseteq> set els"
  by (induction els arbitrary: r) (auto split: if_splits option.splits sum.splits)

lemma collect_excludes_href:
  assumes "collectAllSameOriginAnchorsDeep origin pg so = Inr found"
  shows "location_href pg \<notin> set found"
proof -
  from assms obtain same where
    s: "filter_same_origin origin so (location_href pg)
          (filter (\<lambda>el. href el \<noteq> location_href pg)
             (filter is_page_anchor (findAllElements (document_elements pg)))) = Inr same"
    and f: "found = array_from_set (map href same)"
    by (auto simp: collectAllSameOriginAnchorsDeep_def Let_def split: sum.splits)
  from filter_same_origin_subset[OF s] have "\<forall>el\<in>set same. href el \<noteq> location_href pg"
    by auto
  then show ?thesis by (auto simp: f set_array_from_set)
qed

lemma anchors_of_set: "set (anchors_of cfg found) = set found - {URL cfg}"
  by (auto simp: anchors_of_def)

subsection \<open>The worlds of a run\<close>

lemma heap_ok_initial: "heap_ok (initial cfg)"
  by (simp add: heap_ok_def initial_def)

lemma heap_ok_regD:
  "heap_ok w \<Longrightarrow> map_of (crawledPages w) u = Some a
   \<Longrightarrow> a < next_obj w \<and> url (objs w a) = u \<and> (\<exists>t. title (objs w a) = Some t)
       \<and> (\<exists>arr. children (objs w a) = Some arr \<and> arr < next_arr w)"
  unfolding heap_ok_def by (metis option.exhaust)

lemma heap_ok_childD:
  "heap_ok w \<Longrightarrow> children (objs w p) = Some a \<Longrightarrow> p < next_obj w \<and> a < next_arr w"
  unfolding heap_ok_def by blast

lemma heap_ok_arrD:
  "heap_ok w \<Longrightarrow> c \<in> set (arrs w a) \<Longrightarrow> a < next_arr w \<and> c < next_obj w"
  unfolding heap_ok_def by blast

lemma heap_ok_load:
  assumes ok: "heap_ok w" and page: "page < next_obj w"
    and miss: "map_of (crawledPages w) (url (objs w page)) = None"
    and load: "load_page cfg br w page = Inr w'"
  shows "heap_ok w'"
proof -
  from load_page_Inr_cases[OF load] obtain pg found where
    g: "goto br (map fst (loads w)) (url (objs w page)) = Inr pg"
    and c: "collectAllSameOriginAnchorsDeep (url_origin br) pg True = Inr found"
    by blast
  note f = load_page_fields[OF load g c]
  note o = f(8)[OF page]
  have 1: "a < next_obj w' \<and> url (objs w' a) = u \<and> title (objs w' a) \<noteq> None \<and> children (objs w' a) \<noteq> None"
    if "map_of (crawledPages w') u = Some a" for u a
  proof (cases "u = url (objs w page)")
    case True
    with that have "a = page" by (simp add: f(2) map_set_def update_conv')
    then show ?thesis using page True by (simp add: o f(5))
  next
    case False
    with that have m: "map_of (crawledPages w) u = Some a" by (simp add: f(2) map_set_def update_conv')
    from heap_ok_regD[OF ok m] obtain t arr where
      a: "a < next_obj w" "url (objs w a) = u" "title (objs w a) = Some t" "children (objs w a) = Some arr"
      by blast
    with False have "a \<noteq> page" by auto
    then show ?thesis using a by (simp add: o f(5))
  qed
  have 2: "p < next_obj w' \<and> a < next_arr w'" if "children (objs w' p) = Some a" for p a
    using that page heap_ok_childD[OF ok, of p a]
    by (auto simp: o f(5,6) stub_def split: if_splits)
  have 3: "a < next_arr w' \<and> c < next_obj w'" if "c \<in> set (arrs w' a)" for a c
    using that heap_ok_arrD[OF ok, of c a]
    by (auto simp: f(5,6,7) split: if_splits)
  show ?thesis
    unfolding heap_ok_def using 1 2 3 by blast
qed

lemma heap_ok_reuse:
  assumes ok: "heap_ok w"  and page: "page < next_obj w"
    and hit: "map_of (crawledPages w) (url (objs w page)) = Some item"
    and rr: "reuse_route w page item = Inr w'"
  shows "heap_ok w'"
proof -
  from ok have reg: "\<forall>u a. map_of (crawledPages w) u = Some a \<longrightarrow> url (objs w a) = u"
    by (simp add: heap_ok_def)
  from heap_ok_regD[OF ok hit] obtain t a where
    a: "children (objs w item) = Some a" and al: "a < next_arr w" and it: "title (objs w item) = Some t"
    by blast
  from reuse_route_effect[OF reg hit a] rr have
    e: "next_obj w' = next_obj w" "arrs w' = arrs w" "next_arr w' = next_arr w"
       "crawledPages w' = crawledPages w"
       "\<And>p. url (objs w' p) = url (objs w p)"
       "\<And>p. children (objs w' p) = (if p = page then Some a else children (objs w p))"
       "\<And>p. title (objs w' p) =
            (if p \<in> set (arrs w a) then known_title w p
             else if p = page then title (objs w item) else title (objs w p))"
    by auto
  have kt: "known_title w p \<noteq> None" for p
    using heap_ok_regD[OF ok] by (fastforce simp: known_title_def split: option.splits)
  have 1: "b < next_obj w' \<and> url (objs w' b) = u \<and> title (objs w' b) \<noteq> None \<and> children (objs w' b) \<noteq> None"
    if "map_of (crawledPages w') u = Some b" for u b
    using heap_ok_regD[OF ok that[unfolded e]] kt it by (auto simp: e)
  have 2: "p < next_obj w' \<and> b < next_arr w'" if "children (objs w' p) = Some b" for p b
    using that page al heap_ok_childD[OF ok, of p b]
    by (auto simp: e split: if_splits)
  have 3: "b < next_arr w' \<and> c < next_obj w'" if "c \<in> set (arrs w' b)" for b c
    using that heap_ok_arrD[OF ok, of c b] by (auto simp: e)
  show ?thesis
    unfolding heap_ok_def using 1 2 3 by blast
qed

lemma reach_heap_ok: "reach cfg br w \<Longrightarrow> heap_ok w"
  by (induction rule: reach.induct) (auto intro: heap_ok_initial heap_ok_load heap_ok_reuse)

lemma visit_ok_simps [simp]:
  "visit_ok cfg br w (Inr w') \<longleftrightarrow> reach cfg br w' \<and> next_obj w \<le> next_obj w'"
  "visit_ok cfg br w (Inl (e, w')) \<longleftrightarrow> aborted cfg br e w'"
  by (simp_all add: visit_ok_def)

lemma visit_ok_trans:
  "visit_ok cfg br w' r \<Longrightarrow> next_obj w \<le> next_obj w' \<Longrightarrow> visit_ok cfg br w r"
  by (auto simp: visit_ok_def split: sum.splits)

lemma reuse_route_reach:
  assumes r: "reach cfg br w" and page: "page < next_obj w"
    and hit: "map_of (crawledPages w) (url (objs w page)) = Some item"
  shows "visit_ok cfg br w (reuse_route w page item)"
proof -
  note ok = reach_heap_ok[OF r]
  from ok have reg: "\<forall>u a. map_of (crawledPages w) u = Some a \<longrightarrow> url (objs w a) = u"
    by (simp add: heap_ok_def)
  from heap_ok_regD[OF ok hit] obtain a where a: "children (objs w item) = Some a"
    by blast
  from reuse_route_effect[OF reg hit a] obtain w' where
    w': "reuse_route w page item = Inr w'" "next_obj w' = next_obj w"
    by blast
  from reach_reuse[OF r page hit w'(1)] w' show ?thesis by simp
qed

lemma crawl_reach:
  shows "reach cfg br w \<Longrightarrow> page < next_obj w
         \<Longrightarrow> visit_ok cfg br w (crawl cfg br w page depth)"
    and "reach cfg br w \<Longrightarrow> \<forall>c\<in>set cs. c < next_obj w
         \<Longrightarrow> visit_ok cfg br w (crawl_each cfg br w cs depth)"
proof (induction cfg br w page depth and cfg br w cs depth rule: crawl_crawl_each.induct)
  case (1 cfg br w page depth)
  note r = "1.prems"(1) and page = "1.prems"(2)
  show ?case
  proof (cases "maxDepth cfg < int depth")
    case True
    then show ?thesis using r by (simp add: crawl.simps)
  next
    case deep: False
    show ?thesis
    proof (cases "map_of (crawledPages w) (url (objs w page))")
      case (Some item)
      then show ?thesis
        using deep reuse_route_reach[OF r page Some] by (simp add: crawl.simps)
    next
      case None
      show ?thesis
      proof (cases "load_page cfg br w page")
        case (Inl ew)
        obtain e w' where ew: "ew = (e, w')" by (cases ew)
        from aborted_load[OF r page None Inl[unfolded ew]] show ?thesis
          using deep None Inl ew by (simp add: crawl.simps)
      next
        case (Inr b)
        from load_page_Inr_cases[OF Inr] obtain pg found where
          g: "goto br (map fst (loads w)) (url (objs w page)) = Inr pg"
          and c: "collectAllSameOriginAnchorsDeep (url_origin br) pg True = Inr found"
          by blast
        note f = load_page_fields[OF Inr g c]
        have ch: "children (objs b page) = Some (next_arr w)"
          by (simp add: f(8)[OF page])
        have rb: "reach cfg br b"
          by (rule reach_load[OF r page None Inr])
        have kids: "\<forall>c\<in>set (arrs b (next_arr w)). c < next_obj b"
          by (simp add: f(5,7))
        have "visit_ok cfg br b (crawl_each cfg br b (arrs b (next_arr w)) (depth + 1))"
          by (rule "1.IH"[OF deep None Inr ch rb kids])
        then have "visit_ok cfg br w (crawl_each cfg br b (arrs b (next_arr w)) (depth + 1))"
          by (rule visit_ok_trans) (simp add: f(5))
        then show ?thesis
          using deep None Inr ch by (simp add: crawl.simps)
      qed
    qed
  qed
next
  case (2 cfg br w depth)
  then show ?case by simp
next
  case (3 cfg br w childPage rest depth)
  note r = "3.prems"(1) and cs = "3.prems"(2)
  from cs have c: "childPage < next_obj w" by simp
  note first = "3.IH"(1)[OF r c]
  show ?case
  proof (cases "crawl cfg br w childPage depth")
    case (Inl ew)
    then show ?thesis using first by (cases ew) simp
  next
    case (Inr b)
    with first have rb: "reach cfg br b" and le: "next_obj w \<le> next_obj b" by simp_all
    from cs le have "\<forall>c\<in>set rest. c < next_obj b" by auto
    from "3.IH"(2)[OF Inr rb this] have "visit_ok cfg br w (crawl_each cfg br b rest depth)"
      by (rule visit_ok_trans) (rule le)
    then show ?thesis using Inr by simp
  qed
qed

lemma run_reach: "visit_ok cfg br (initial cfg) (run cfg br)"
  unfolding run_def by (rule crawl_reach(1)[OF reach_initial]) (simp add: initial_def)

lemma aborted_world:
  assumes "aborted cfg br e w'"
  shows "\<exists>w u. reach cfg br w
           \<and> w' = w\<lparr>loads := loads w @ [(u, goto br (map fst (loads w)) u)]\<rparr>
           \<and> map_of (crawledPages w) u = None
           \<and> (goto br (map fst (loads w)) u = Inl e
              \<or> (\<exists>pg. goto br (map fst (loads w)) u = Inr pg
                     \<and> collectAllSameOriginAnchorsDeep (url_origin br) pg True = Inl e))
           \<and> (\<exists>p<next_obj w. url (objs w p) = u)"
  using assms
proof cases
  case (aborted_load w page)
  from load_page_Inl[OF aborted_load(4)]
  have 1: "w' = w\<lparr>loads := loads w @ [(url (objs w page), goto br (map fst (loads w)) (url (objs w page)))]\<rparr>"
    and 2: "goto br (map fst (loads w)) (url (objs w page)) = Inl e
       \<or> (\<exists>pg. goto br (map fst (loads w)) (url (objs w page)) = Inr pg
              \<and> collectAllSameOriginAnchorsDeep (url_origin br) pg True = Inl e)"
    by auto
  show ?thesis
    apply (rule exI[of _ w])
    apply (rule exI[of _ "url (objs w page)"])
    using aborted_load(1,2,3) 1 2 apply simp
    apply (rule exI[of _ page])
    apply simp
    done
qed

lemma run_cases:
  obtains (returned) w where "run cfg br = Inr w" "reach cfg br w"
  | (thrown) e w u where
      "run cfg br = Inl (e, w\<lparr>loads := loads w @ [(u, goto br (map fst (loads w)) u)]\<rparr>)"
      "reach cfg br w" "map_of (crawledPages w) u = None"
      "goto br (map fst (loads w)) u = Inl e
       \<or> (\<exists>pg. goto br (map fst (loads w)) u = Inr pg
              \<and> collectAllSameOriginAnchorsDeep (url_origin br) pg True = Inl e)"
      "\<exists>p<next_obj w. url (objs w p) = u"
proof (cases "run cfg br")
  case (Inl ew)
  obtain e w' where ew: "ew = (e, w')" by (cases ew)
  from run_reach[of cfg br] Inl ew have "aborted cfg br e w'" by simp
  from aborted_world[OF this] obtain w u where
    "reach cfg br w" "w' = w\<lparr>loads := loads w @ [(u, goto br (map fst (loads w)) u)]\<rparr>"
    "map_of (crawledPages w) u = None"
    "goto br (map fst (loads w)) u = Inl e
       \<or> (\<exists>pg. goto br (map fst (loads w)) u = Inr pg
              \<and> collectAllSameOriginAnchorsDeep (url_origin br) pg True = Inl e)"
    "\<exists>p<next_obj w. url (objs w p) = u"
    by (elim exE conjE) blast
  with Inl ew show ?thesis
    by (intro thrown[of e w u]) simp_all
next
  case (Inr w)
  from run_reach[of cfg br] Inr have "reach cfg br w" by simp
  with Inr show ?thesis by (rule returned)
qed

subsection \<open>What holds in every world of a run\<close>

lemma reach_slots: "reach cfg br w \<Longrightarrow> slots w = [1..<next_obj w]"
proof (induction rule: reach.induct)
  case reach_initial
  show ?case by (simp add: slots_def initial_def)
next
  case (reach_load w page w')
  from load_page_Inr_cases[OF reach_load(4)] obtain pg found where
    g: "goto br (map fst (loads w)) (url (objs w page)) = Inr pg"
    and c: "collectAllSameOriginAnchorsDeep (url_origin br) pg True = Inr found"
    by blast
  note f = load_page_fields[OF reach_load(4) g c]
  have "map (arrs w') [0..<next_arr w] = map (arrs w) [0..<next_arr w]"
    by (rule map_cong) (simp_all add: f(7))
  then have "slots w' = slots w @ [next_obj w..<next_obj w + length (anchors_of cfg found)]"
    by (simp add: slots_def f(6,7))
  also have "\<dots> = [1..<next_obj w] @ [next_obj w..<next_obj w + length (anchors_of cfg found)]"
    by (simp only: reach_load.IH)
  also have "\<dots> = [1..<next_obj w + length (anchors_of cfg found)]"
    using reach_load(2) by (intro upt_add_eq_append[symmetric]) simp
  finally show ?case by (simp only: f(5))
next
  case (reach_reuse w page item w')
  note ok = reach_heap_ok[OF reach_reuse(1)]
  from ok have reg: "\<forall>u a. map_of (crawledPages w) u = Some a \<longrightarrow> url (objs w a) = u"
    by (simp add: heap_ok_def)
  from heap_ok_regD[OF ok reach_reuse(3)] obtain a where a: "children (objs w item) = Some a"
    by blast
  from reuse_route_effect[OF reg reach_reuse(3) a] reach_reuse(4)
  have "next_obj w' = next_obj w" "arrs w' = arrs w" "next_arr w' = next_arr w"
    by auto
  then show ?case by (simp add: slots_def reach_reuse.IH[unfolded slots_def])
qed

lemma run_slots: "slots (final_world (run cfg br)) = [1..<next_obj (final_world (run cfg br))]"
proof (cases cfg br rule: run_cases)
  case (returned w)
  then show ?thesis by (simp add: reach_slots)
next
  case (thrown e w u)
  then show ?thesis using reach_slots[of cfg br w] by (simp add: slots_def)
qed

lemma reach_loads:
  "reach cfg br w \<Longrightarrow>
     map fst (crawledPages w) = map fst (loads w)
     \<and> (\<forall>x\<in>set (loads w). \<exists>pg. snd x = Inr pg)"
proof (induction rule: reach.induct)
  case reach_initial
  show ?case by (simp add: initial_def)
next
  case (reach_load w page w')
  from load_page_Inr_cases[OF reach_load(4)] obtain pg found where
    g: "goto br (map fst (loads w)) (url (objs w page)) = Inr pg"
    and c: "collectAllSameOriginAnchorsDeep (url_origin br) pg True = Inr found"
    by blast
  note f = load_page_fields[OF reach_load(4) g c]
  show ?case
    using reach_load.IH
    by (simp add: f(1,2) map_set_def update_absent[OF reach_load(3)])
next
  case (reach_reuse w page item w')
  note ok = reach_heap_ok[OF reach_reuse(1)]
  from ok have reg: "\<forall>u a. map_of (crawledPages w) u = Some a \<longrightarrow> url (objs w a) = u"
    by (simp add: heap_ok_def)
  from heap_ok_regD[OF ok reach_reuse(3)] obtain a where a: "children (objs w item) = Some a"
    by blast
  from reuse_route_effect[OF reg reach_reuse(3) a] reach_reuse(4)
  have "crawledPages w' = crawledPages w" "loads w' = loads w"
    by auto
  then show ?case using reach_reuse.IH by simp
qed

lemma reach_distinct_loads: "reach cfg br w \<Longrightarrow> distinct (map fst (loads w))"
proof (induction rule: reach.induct)
  case reach_initial
  show ?case by (simp add: initial_def)
next
  case (reach_load w page w')
  from load_page_Inr_cases[OF reach_load(4)] obtain pg found where
    g: "goto br (map fst (loads w)) (url (objs w page)) = Inr pg"
    and c: "collectAllSameOriginAnchorsDeep (url_origin br) pg True = Inr found"
    by blast
  note f = load_page_fields[OF reach_load(4) g c]
  from reach_load(3) have "url (objs w page) \<notin> fst ` set (crawledPages w)"
    by (simp add: map_of_eq_None_iff)
  then have "url (objs w page) \<notin> set (map fst (loads w))"
    using reach_loads[OF reach_load(1)] by (metis set_map)
  then show ?case using reach_load.IH by (simp add: f(1))
next
  case (reach_reuse w page item w')
  note ok = reach_heap_ok[OF reach_reuse(1)]
  from ok have reg: "\<forall>u a. map_of (crawledPages w) u = Some a \<longrightarrow> url (objs w a) = u"
    by (simp add: heap_ok_def)
  from heap_ok_regD[OF ok reach_reuse(3)] obtain a where a: "children (objs w item) = Some a"
    by blast
  from reuse_route_effect[OF reg reach_reuse(3) a] reach_reuse(4)
  have "loads w' = loads w"
    by auto
  then show ?case using reach_reuse.IH by simp
qed

lemma reach_no_seed_child:
  "reach cfg br w \<Longrightarrow> c \<in> set (arrs w a) \<Longrightarrow> url (objs w c) \<noteq> URL cfg"
proof (induction arbitrary: a c rule: reach.induct)
  case reach_initial
  then show ?case by (simp add: initial_def)
next
  case (reach_load w page w')
  from load_page_Inr_cases[OF reach_load(4)] obtain pg found where
    g: "goto br (map fst (loads w)) (url (objs w page)) = Inr pg"
    and cl: "collectAllSameOriginAnchorsDeep (url_origin br) pg True = Inr found"
    by blast
  note f = load_page_fields[OF reach_load(4) g cl]
  note o = f(8)[OF reach_load(2)]
  note ok = reach_heap_ok[OF reach_load(1)]
  show ?case
  proof (cases "a = next_arr w")
    case True
    with reach_load.prems have c: "next_obj w \<le> c" "c < next_obj w + length (anchors_of cfg found)"
      by (simp_all add: f(7))
    then have "url (objs w' c) = anchors_of cfg found ! (c - next_obj w)"
      using reach_load(2) by (simp add: o stub_def)
    moreover have "anchors_of cfg found ! (c - next_obj w) \<in> set (anchors_of cfg found)"
      using c by (intro nth_mem) simp
    ultimately show ?thesis by (simp add: anchors_of_set)
  next
    case False
    with reach_load.prems have m: "c \<in> set (arrs w a)" by (simp add: f(7))
    from heap_ok_arrD[OF ok m] have "c < next_obj w" by simp
    then have "url (objs w' c) = url (objs w c)" by (simp add: o)
    with reach_load.IH[OF m] show ?thesis by simp
  qed
next
  case (reach_reuse w page item w')
  note ok = reach_heap_ok[OF reach_reuse(1)]
  from ok have reg: "\<forall>u a. map_of (crawledPages w) u = Some a \<longrightarrow> url (objs w a) = u"
    by (simp add: heap_ok_def)
  from heap_ok_regD[OF ok reach_reuse(3)] obtain b where b: "children (objs w item) = Some b"
    by blast
  from reuse_route_effect[OF reg reach_reuse(3) b] reach_reuse(4)
  have "arrs w' = arrs w" "\<And>p. url (objs w' p) = url (objs w p)"
    by auto
  with reach_reuse.IH[of c a] reach_reuse.prems show ?case by simp
qed

lemma own_url_excluded_prefix:
  "own_url_excluded br (xs @ ys) \<Longrightarrow> own_url_excluded br xs"
  by (simp add: own_url_excluded_def)

lemma own_url_excluded_href:
  assumes "\<forall>x\<in>set log. \<forall>pg. snd x = Inr pg \<longrightarrow> location_href pg = fst x"
  shows "own_url_excluded br log"
  unfolding own_url_excluded_def list_all_iff
proof
  fix x assume x: "x \<in> set log"
  obtain u res where ur: "x = (u, res)" by (cases x)
  show "case x of (u, res) \<Rightarrow>
          (case res of
             Inl _ \<Rightarrow> True
           | Inr pg \<Rightarrow>
              (case collectAllSameOriginAnchorsDeep (url_origin br) pg True of
                 Inl _ \<Rightarrow> True
               | Inr found \<Rightarrow> u \<notin> set found))"
    using assms x collect_excludes_href[of "url_origin br" _ True]
    by (fastforce simp: ur split: sum.splits)
qed

lemma reach_no_self_child:
  "reach cfg br w \<Longrightarrow> own_url_excluded br (loads w)
   \<Longrightarrow> children (objs w p) = Some a \<Longrightarrow> c \<in> set (arrs w a)
   \<Longrightarrow> url (objs w c) \<noteq> url (objs w p)"
proof (induction arbitrary: p a c rule: reach.induct)
  case reach_initial
  then show ?case by (simp add: initial_def)
next
  case (reach_load w page w')
  from load_page_Inr_cases[OF reach_load(4)] obtain pg found where
    g: "goto br (map fst (loads w)) (url (objs w page)) = Inr pg"
    and cl: "collectAllSameOriginAnchorsDeep (url_origin br) pg True = Inr found"
    by blast
  note f = load_page_fields[OF reach_load(4) g cl]
  note o = f(8)[OF reach_load(2)]
  note ok = reach_heap_ok[OF reach_load(1)]
  from reach_load.prems(1) have own: "own_url_excluded br (loads w)"
    and excl: "url (objs w page) \<notin> set found"
    by (simp_all add: f(1) own_url_excluded_def cl)
  show ?case
  proof (cases "p = page")
    case True
    with reach_load.prems(2) have a: "a = next_arr w" by (simp add: o)
    with reach_load.prems(3) have c: "next_obj w \<le> c" "c < next_obj w + length (anchors_of cfg found)"
      by (simp_all add: f(7))
    then have "url (objs w' c) = anchors_of cfg found ! (c - next_obj w)"
      using reach_load(2) by (simp add: o stub_def)
    moreover have "anchors_of cfg found ! (c - next_obj w) \<in> set (anchors_of cfg found)"
      using c by (intro nth_mem) simp
    ultimately have "url (objs w' c) \<in> set found" by (simp add: anchors_of_set)
    with excl have "url (objs w' c) \<noteq> url (objs w page)"
      by auto
    then show ?thesis using True by (simp add: o)
  next
    case False
    with reach_load.prems(2) have ch: "children (objs w p) = Some a"
      by (auto simp: o stub_def split: if_splits)
    from heap_ok_childD[OF ok ch] have pa: "p < next_obj w" "a < next_arr w" by simp_all
    with reach_load.prems(3) have m: "c \<in> set (arrs w a)" by (simp add: f(7))
    from heap_ok_arrD[OF ok m] have "c < next_obj w" by simp
    then have "url (objs w' c) = url (objs w c)" by (simp add: o)
    moreover have "url (objs w' p) = url (objs w p)" using pa False by (simp add: o)
    ultimately show ?thesis using reach_load.IH[OF own ch m] by simp
  qed
next
  case (reach_reuse w page item w')
  note ok = reach_heap_ok[OF reach_reuse(1)]
  from ok have reg: "\<forall>u a. map_of (crawledPages w) u = Some a \<longrightarrow> url (objs w a) = u"
    by (simp add: heap_ok_def)
  from heap_ok_regD[OF ok reach_reuse(3)] obtain b where b: "children (objs w item) = Some b"
    and ui: "url (objs w item) = url (objs w page)"
    by blast
  from reuse_route_effect[OF reg reach_reuse(3) b] reach_reuse(4)
  have e: "arrs w' = arrs w" "\<And>p. url (objs w' p) = url (objs w p)"
    "\<And>p. children (objs w' p) = (if p = page then Some b else children (objs w p))"
    "loads w' = loads w"
    by auto
  from reach_reuse.prems(1) have own: "own_url_excluded br (loads w)"
    by (simp add: e)
  show ?case
  proof (cases "p = page")
    case True
    with reach_reuse.prems have "c \<in> set (arrs w b)" by (simp add: e)
    from reach_reuse.IH[OF own b this] ui True show ?thesis by (simp add: e)
  next
    case False
    with reach_reuse.prems have "children (objs w p) = Some a" "c \<in> set (arrs w a)"
      by (simp_all add: e)
    from reach_reuse.IH[OF own this] show ?thesis by (simp add: e)
  qed
qed

lemma reach_unregistered_bare:
  "reach cfg br w \<Longrightarrow> map_of (crawledPages w) (url (objs w p)) = None
   \<Longrightarrow> children (objs w p) = None \<and> (title (objs w p) = None \<or> title (objs w p) = Some [])"
proof (induction arbitrary: p rule: reach.induct)
  case reach_initial
  show ?case by (simp add: initial_def)
next
  case (reach_load w page w')
  from load_page_Inr_cases[OF reach_load(4)] obtain pg found where
    g: "goto br (map fst (loads w)) (url (objs w page)) = Inr pg"
    and cl: "collectAllSameOriginAnchorsDeep (url_origin br) pg True = Inr found"
    by blast
  note f = load_page_fields[OF reach_load(4) g cl]
  note o = f(8)[OF reach_load(2)]
  have reg': "map_of (crawledPages w') x =
      (if x = url (objs w page) then Some page else map_of (crawledPages w) x)" for x
    by (simp add: f(2) map_set_def update_conv')
  show ?case
  proof (cases "p = page")
    case True
    have "url (objs w' page) = url (objs w page)" by (simp add: o)
    with reach_load.prems True show ?thesis by (simp add: reg')
  next
    case False
    show ?thesis
    proof (cases "next_obj w \<le> p \<and> p < next_obj w + length (anchors_of cfg found)")
      case True
      then show ?thesis using False by (simp add: o stub_def)
    next
      case inner: False
      then have e: "objs w' p = objs w p" using False by (auto simp: o)
      with reach_load.prems have "map_of (crawledPages w) (url (objs w p)) = None"
        by (simp add: reg' split: if_splits)
      from reach_load.IH[OF this] show ?thesis by (simp add: e)
    qed
  qed
next
  case (reach_reuse w page item w')
  note ok = reach_heap_ok[OF reach_reuse(1)]
  from ok have reg: "\<forall>u a. map_of (crawledPages w) u = Some a \<longrightarrow> url (objs w a) = u"
    by (simp add: heap_ok_def)
  from heap_ok_regD[OF ok reach_reuse(3)] obtain b where b: "children (objs w item) = Some b"
    by blast
  from reuse_route_effect[OF reg reach_reuse(3) b] reach_reuse(4)
  have e: "crawledPages w' = crawledPages w" "\<And>p. url (objs w' p) = url (objs w p)"
    "\<And>p. children (objs w' p) = (if p = page then Some b else children (objs w p))"
    "\<And>p. title (objs w' p) =
            (if p \<in> set (arrs w b) then known_title w p
             else if p = page then title (objs w item) else title (objs w p))"
    by auto
  from reach_reuse.prems have un: "map_of (crawledPages w) (url (objs w p)) = None"
    by (simp add: e)
  with reach_reuse(3) have "p \<noteq> page" by auto
  with reach_reuse.IH[OF un] un show ?case
    by (auto simp: e known_title_def)
qed

subsection \<open>The two artifact registries\<close>

lemma map_of_add_cookie:
  "map_of (add_cookie u m c) n =
     (case map_of m n of
        Some c' \<Rightarrow> Some c'
      | None \<Rightarrow> if name c = n then Some (c\<lparr>firstFound := Some u\<rparr>) else None)"
  by (auto simp: add_cookie_def map_has_def map_set_def update_conv' split: option.splits)

lemma map_of_add_iframe:
  "map_of (add_iframe u m x) s =
     (case map_of m s of
        Some r \<Rightarrow> Some r
      | None \<Rightarrow> if x = s then Some \<lparr>iframe_src = x, iframe_firstFound = u\<rparr> else None)"
  by (auto simp: add_iframe_def map_has_def map_set_def update_conv' split: option.splits)

lemma map_of_cookie_sightings:
  "map_of (foldl (\<lambda>m (u, c). add_cookie u m c) m ss) n =
     (case map_of m n of
        Some c' \<Rightarrow> Some c'
      | None \<Rightarrow> map_option (\<lambda>(u, c). c\<lparr>firstFound := Some u\<rparr>) (find (\<lambda>(u, c). name c = n) ss))"
proof (induction ss arbitrary: m)
  case Nil
  then show ?case by (simp split: option.splits)
next
  case (Cons s ss)
  obtain u c where s: "s = (u, c)" by (cases s)
  show ?case
    by (simp add: s Cons.IH map_of_add_cookie split: option.splits)
qed

lemma map_of_iframe_sightings:
  "map_of (foldl (\<lambda>m (u, x). add_iframe u m x) m ss) s =
     (case map_of m s of
        Some r \<Rightarrow> Some r
      | None \<Rightarrow> map_option (\<lambda>(u, x). \<lparr>iframe_src = x, iframe_firstFound = u\<rparr>)
                  (find (\<lambda>(u, x). x = s) ss))"
proof (induction ss arbitrary: m)
  case Nil
  then show ?case by (simp split: option.splits)
next
  case (Cons p ss)
  obtain u x where p: "p = (u, x)" by (cases p)
  show ?case
    by (simp add: p Cons.IH map_of_add_iframe split: option.splits)
qed

lemma foldl_Pair:
  "foldl (\<lambda>m (u, c). f u m c) m (map (Pair u) cs) = foldl (f u) m cs"
  by (induction cs arbitrary: m) simp_all

lemma reach_registries:
  "reach cfg br w \<Longrightarrow>
     crawledCookies w = foldl (\<lambda>m (u, c). add_cookie u m c) [] (cookie_sightings (loads w))
   \<and> crawledIframes w = foldl (\<lambda>m (u, x). add_iframe u m x) [] (iframe_sightings (loads w))"
proof (induction rule: reach.induct)
  case reach_initial
  show ?case by (simp add: initial_def cookie_sightings_def iframe_sightings_def)
next
  case (reach_load w page w')
  from load_page_Inr_cases[OF reach_load(4)] obtain pg found where
    g: "goto br (map fst (loads w)) (url (objs w page)) = Inr pg"
    and c: "collectAllSameOriginAnchorsDeep (url_origin br) pg True = Inr found"
    by blast
  note f = load_page_fields[OF reach_load(4) g c]
  have 1: "cookie_sightings (loads w') =
        cookie_sightings (loads w) @ map (Pair (url (objs w page))) (all_cookies pg)"
    by (simp add: f(1) cookie_sightings_def)
  have 2: "iframe_sightings (loads w') =
        iframe_sightings (loads w) @ map (Pair (url (objs w page))) (findAllIframes pg)"
    by (simp add: f(1) iframe_sightings_def)
  from reach_load.IH show ?case
    by (simp add: 1 2 f(3,4) foldl_Pair)
next
  case (reach_reuse w page item w')
  note ok = reach_heap_ok[OF reach_reuse(1)]
  from ok have reg: "\<forall>u a. map_of (crawledPages w) u = Some a \<longrightarrow> url (objs w a) = u"
    by (simp add: heap_ok_def)
  from heap_ok_regD[OF ok reach_reuse(3)] obtain a where a: "children (objs w item) = Some a"
    by blast
  from reuse_route_effect[OF reg reach_reuse(3) a] reach_reuse(4)
  have "crawledCookies w' = crawledCookies w" "crawledIframes w' = crawledIframes w"
    "loads w' = loads w"
    by auto
  then show ?case using reach_reuse.IH by simp
qed

lemma load_page_keeps:
  assumes I: "(A \<longrightarrow> map_of (crawledCookies w) n = Some c)
            \<and> (B \<longrightarrow> map_of (crawledIframes w) s = Some r)"
  shows "(A \<longrightarrow> map_of (crawledCookies (final_world (load_page cfg br w page))) n = Some c)
       \<and> (B \<longrightarrow> map_of (crawledIframes (final_world (load_page cfg br w page))) s = Some r)"
proof (cases "load_page cfg br w page")
  case (Inl ew)
  obtain e w' where ew: "ew = (e, w')" by (cases ew)
  from load_page_Inl[OF Inl[unfolded ew]] I show ?thesis
    by (simp add: Inl ew)
next
  case (Inr w')
  from load_page_Inr_cases[OF Inr] obtain pg found where
    g: "goto br (map fst (loads w)) (url (objs w page)) = Inr pg"
    and cl: "collectAllSameOriginAnchorsDeep (url_origin br) pg True = Inr found"
    by blast
  note f = load_page_fields[OF Inr g cl]
  from I map_of_cookie_sightings[of "crawledCookies w" "map (Pair (url (objs w page))) (all_cookies pg)" n]
    map_of_iframe_sightings[of "crawledIframes w" "map (Pair (url (objs w page))) (findAllIframes pg)" s]
  show ?thesis
    by (auto simp: Inr f(3,4) foldl_Pair)
qed

lemma crawl_keeps_registries:
  shows "(A \<longrightarrow> map_of (crawledCookies w) n = Some c)
       \<and> (B \<longrightarrow> map_of (crawledIframes w) s = Some r)
     \<Longrightarrow> (A \<longrightarrow> map_of (crawledCookies (final_world (crawl cfg br w page depth))) n = Some c)
       \<and> (B \<longrightarrow> map_of (crawledIframes (final_world (crawl cfg br w page depth))) s = Some r)"
    and "(A \<longrightarrow> map_of (crawledCookies w) n = Some c)
       \<and> (B \<longrightarrow> map_of (crawledIframes w) s = Some r)
     \<Longrightarrow> (A \<longrightarrow> map_of (crawledCookies (final_world (crawl_each cfg br w cs depth))) n = Some c)
       \<and> (B \<longrightarrow> map_of (crawledIframes (final_world (crawl_each cfg br w cs depth))) s = Some r)"
proof (induction cfg br w page depth and cfg br w cs depth rule: crawl_crawl_each.induct)
  case (1 cfg br w page depth)
  show ?case
  proof (cases "maxDepth cfg < int depth")
    case True
    then show ?thesis using "1.prems" by (simp add: crawl.simps)
  next
    case deep: False
    show ?thesis
    proof (cases "map_of (crawledPages w) (url (objs w page))")
      case (Some item)
      then show ?thesis
        using deep "1.prems" by (simp add: crawl.simps reuse_route_registries)
    next
      case None
      note lk = load_page_keeps[OF "1.prems", of cfg br page]
      show ?thesis
      proof (cases "load_page cfg br w page")
        case (Inl ew)
        then show ?thesis
          using deep None lk by (simp add: crawl.simps)
      next
        case (Inr b)
        with lk have Ib: "(A \<longrightarrow> map_of (crawledCookies b) n = Some c)
            \<and> (B \<longrightarrow> map_of (crawledIframes b) s = Some r)"
          by simp
        show ?thesis
        proof (cases "children (objs b page)")
          case None2: None
          then show ?thesis using deep None Inr Ib by (simp add: crawl.simps)
        next
          case (Some a)
          from "1.IH"[OF deep None Inr Some Ib] show ?thesis
            using deep None Inr Some by (simp add: crawl.simps)
        qed
      qed
    qed
  qed
next
  case (2 cfg br w depth)
  then show ?case by simp
next
  case (3 cfg br w childPage rest depth)
  note first = "3.IH"(1)[OF "3.prems"]
  show ?case
  proof (cases "crawl cfg br w childPage depth")
    case (Inl ew)
    then show ?thesis using first by (cases ew) simp
  next
    case (Inr b)
    with first have "(A \<longrightarrow> map_of (crawledCookies b) n = Some c)
        \<and> (B \<longrightarrow> map_of (crawledIframes b) s = Some r)"
      by simp
    from "3.IH"(2)[OF Inr this] show ?thesis using Inr by simp
  qed
qed

subsection \<open>The depth of the recursion\<close>

lemma crawl_fuel_enough:
  shows "nat (maxDepth cfg + 1 - int depth) < k
         \<Longrightarrow> crawl_fuel k cfg br w page depth = Some (crawl cfg br w page depth)"
    and "nat (maxDepth cfg + 1 - int depth) < k
         \<Longrightarrow> crawl_each_fuel k cfg br w cs depth = Some (crawl_each cfg br w cs depth)"
proof (induction cfg br w page depth and cfg br w cs depth arbitrary: k and k
       rule: crawl_crawl_each.induct)
  case (1 cfg br w page depth)
  from "1.prems" obtain j where k: "k = Suc j" by (cases k) auto
  show ?case
  proof (cases "maxDepth cfg < int depth")
    case True
    then show ?thesis by (simp add: k crawl.simps)
  next
    case False
    with "1.prems" k have j: "nat (maxDepth cfg + 1 - int (depth + 1)) < j" by simp
    show ?thesis
      using False "1.IH"[OF False _ _ _ j]
      by (auto simp: k crawl.simps[of cfg br w page depth] split: option.splits sum.splits)
  qed
next
  case (2 cfg br w depth)
  then show ?case by simp
next
  case (3 cfg br w childPage rest depth)
  show ?case
    using "3.IH"(1)[OF "3.prems"] "3.IH"(2)[OF _ "3.prems"]
    by (auto split: sum.splits)
qed

subsection \<open>Evaluating the examples\<close>

lemmas eval_defs = run_def crawl.simps load_page_def reuse_route_def fill_in_def set_title_def
  set_children_def new_stub_def new_array_def note_iframe_def note_cookie_def map_has_def
  map_set_def collectAllSameOriginAnchorsDeep_def findAllIframes_def is_page_anchor_def
  array_from_set_def initial_def page_with_def Let_def

lemma nodes_at_pos:
  "0 < k \<Longrightarrow> nodes_at w k p =
     (case children (objs w p) of
        None \<Rightarrow> []
      | Some a \<Rightarrow> concat (map (nodes_at w (k - 1)) (arrs w a)))"
  by (cases k) (auto split: option.split)

lemma tree_of_pos:
  "0 < k \<Longrightarrow> tree_of k w p =
     PageTree (url (objs w p)) (title (objs w p))
       (case children (objs w p) of
          None \<Rightarrow> None
        | Some a \<Rightarrow> Some (map (tree_of (k - 1) w) (arrs w a)))"
  by (cases k) (auto split: option.split)

lemma shared_run:
  "\<exists>w. run shared_cfg shared_site = Inr w
     \<and> next_obj w = 6 \<and> next_arr w = 4
     \<and> objs w 0 = \<lparr>url = ''/a'', title = Some ''A'', children = Some 0\<rparr>
     \<and> objs w 1 = \<lparr>url = ''/b'', title = Some ''B'', children = Some 1\<rparr>
     \<and> objs w 2 = \<lparr>url = ''/c'', title = Some ''C'', children = Some 3\<rparr>
     \<and> objs w 3 = \<lparr>url = ''/d'', title = Some ''D'', children = Some 2\<rparr>
     \<and> objs w 4 = \<lparr>url = ''/e'', title = None, children = None\<rparr>
     \<and> objs w 5 = \<lparr>url = ''/b'', title = Some ''B'', children = Some 1\<rparr>
     \<and> arrs w 0 = [1, 2] \<and> arrs w 1 = [3] \<and> arrs w 2 = [4] \<and> arrs w 3 = [5]
     \<and> crawledPages w = [(''/a'', 0), (''/b'', 1), (''/d'', 3), (''/c'', 2)]
     \<and> map fst (loads w) = [''/a'', ''/b'', ''/d'', ''/c'']"
  by (simp add: eval_defs shared_site_def shared_cfg_def)

lemma shared_returns: "run shared_cfg shared_site = Inr shared_final"
  using shared_run by (auto simp: shared_final_def)

lemma shared_facts:
  "next_obj shared_final = 6" "next_arr shared_final = 4"
  "objs shared_final 0 = \<lparr>url = ''/a'', title = Some ''A'', children = Some 0\<rparr>"
  "objs shared_final (Suc 0) = \<lparr>url = ''/b'', title = Some ''B'', children = Some 1\<rparr>"
  "objs shared_final 2 = \<lparr>url = ''/c'', title = Some ''C'', children = Some 3\<rparr>"
  "objs shared_final 3 = \<lparr>url = ''/d'', title = Some ''D'', children = Some 2\<rparr>"
  "objs shared_final 4 = \<lparr>url = ''/e'', title = None, children = None\<rparr>"
  "objs shared_final 5 = \<lparr>url = ''/b'', title = Some ''B'', children = Some 1\<rparr>"
  "arrs shared_final 0 = [1, 2]" "arrs shared_final (Suc 0) = [3]" "arrs shared_final 2 = [4]"
  "arrs shared_final 3 = [5]"
  "crawledPages shared_final = [(''/a'', 0), (''/b'', 1), (''/d'', 3), (''/c'', 2)]"
  "map fst (loads shared_final) = [''/a'', ''/b'', ''/d'', ''/c'']"
  using shared_run by (auto simp: shared_final_def)

lemma crawl_each_single: "crawl_each cfg br w [c] d = crawl cfg br w c d"
  by (simp split: sum.split)

lemma run_second_child:
  assumes "0 \<le> maxDepth cfg"
    and "load_page cfg br (initial cfg) 0 = Inr w1"
    and "children (objs w1 0) = Some a" "arrs w1 a = [c1, c2]"
    and "crawl cfg br w1 c1 (Suc 0) = Inr w2"
  shows "run cfg br = crawl cfg br w2 c2 (Suc 0)"
proof -
  have "map_of (crawledPages (initial cfg)) (url (objs (initial cfg) 0)) = None"
    by (simp add: initial_def)
  then have "run cfg br = crawl_each cfg br w1 [c1, c2] (Suc 0)"
    using assms(1-4) by (simp add: run_def crawl.simps[of cfg br "initial cfg" 0 0])
  also have "\<dots> = crawl_each cfg br w2 [c2] (Suc 0)"
    using assms(5) by simp
  finally show ?thesis
    by (simp only: crawl_each_single)
qed





lemma order_before_facts:
  "next_obj order_before = 6" "next_arr order_before = 3"
  "objs order_before 0 = \<lparr>url = ''/a'', title = Some ''A'', children = Some 0\<rparr>"
  "objs order_before (Suc 0) = \<lparr>url = ''/c'', title = Some ''C'', children = Some (Suc 0)\<rparr>"
  "objs order_before 2 = \<lparr>url = ''/b'', title = None, children = None\<rparr>"
  "objs order_before 3 = \<lparr>url = ''/b'', title = Some ''B'', children = Some 2\<rparr>"
  "objs order_before 4 = \<lparr>url = ''/d'', title = None, children = None\<rparr>"
  "objs order_before 5 = \<lparr>url = ''/c'', title = None, children = None\<rparr>"
  "arrs order_before 0 = [Suc 0, 2]" "arrs order_before (Suc 0) = [3]"
  "arrs order_before 2 = [4, 5]"
  "crawledPages order_before = [(''/a'', 0), (''/c'', Suc 0), (''/b'', 3)]"
  "map fst (loads order_before) = [''/a'', ''/c'', ''/b'']"
  by (simp_all add: order_before_def eval_defs order_site_def shared_cfg_def)

lemma order_step:
  "run shared_cfg order_site = crawl shared_cfg order_site order_before 2 (Suc 0)"
proof -
  define w1 where "w1 = final_world (load_page shared_cfg order_site (initial shared_cfg) 0)"
  have "\<exists>w. load_page shared_cfg order_site (initial shared_cfg) 0 = Inr w"
    by (simp add: eval_defs order_site_def shared_cfg_def)
  then have 1: "load_page shared_cfg order_site (initial shared_cfg) 0 = Inr w1"
    by (auto simp: w1_def)
  have 2: "children (objs w1 0) = Some 0" "arrs w1 0 = [Suc 0, 2]"
    by (simp_all add: w1_def eval_defs order_site_def shared_cfg_def)
  have "\<exists>w. crawl shared_cfg order_site w1 (Suc 0) (Suc 0) = Inr w"
    by (simp add: w1_def eval_defs order_site_def shared_cfg_def)
  then have 3: "crawl shared_cfg order_site w1 (Suc 0) (Suc 0) = Inr order_before"
    by (auto simp: order_before_def w1_def)
  have "0 \<le> maxDepth shared_cfg"
    by (simp add: shared_cfg_def)
  from run_second_child[OF this 1 2 3] show ?thesis .
qed

lemma order_run:
  "\<exists>w. run shared_cfg order_site = Inr w
     \<and> next_obj w = 6 \<and> next_arr w = 3
     \<and> objs w 0 = \<lparr>url = ''/a'', title = Some ''A'', children = Some 0\<rparr>
     \<and> objs w (Suc 0) = \<lparr>url = ''/c'', title = Some ''C'', children = Some (Suc 0)\<rparr>
     \<and> objs w 2 = \<lparr>url = ''/b'', title = Some ''B'', children = Some 2\<rparr>
     \<and> objs w 3 = \<lparr>url = ''/b'', title = Some ''B'', children = Some 2\<rparr>
     \<and> objs w 4 = \<lparr>url = ''/d'', title = Some [], children = None\<rparr>
     \<and> objs w 5 = \<lparr>url = ''/c'', title = Some ''C'', children = None\<rparr>
     \<and> arrs w 0 = [Suc 0, 2] \<and> arrs w (Suc 0) = [3] \<and> arrs w 2 = [4, 5]
     \<and> crawledPages w = [(''/a'', 0), (''/c'', Suc 0), (''/b'', 3)]
     \<and> map fst (loads w) = [''/a'', ''/c'', ''/b'']"
  by (simp add: eval_defs order_site_def shared_cfg_def)

lemma order_returns:
  "crawl shared_cfg order_site order_before 2 (Suc 0) = Inr order_final"
  using order_run by (auto simp: order_final_def simp flip: order_step)

lemma order_facts:
  "next_obj order_final = 6" "next_arr order_final = 3"
  "objs order_final 0 = \<lparr>url = ''/a'', title = Some ''A'', children = Some 0\<rparr>"
  "objs order_final (Suc 0) = \<lparr>url = ''/c'', title = Some ''C'', children = Some (Suc 0)\<rparr>"
  "objs order_final 2 = \<lparr>url = ''/b'', title = Some ''B'', children = Some 2\<rparr>"
  "objs order_final 3 = \<lparr>url = ''/b'', title = Some ''B'', children = Some 2\<rparr>"
  "objs order_final 4 = \<lparr>url = ''/d'', title = Some [], children = None\<rparr>"
  "objs order_final 5 = \<lparr>url = ''/c'', title = Some ''C'', children = None\<rparr>"
  "arrs order_final 0 = [Suc 0, 2]" "arrs order_final (Suc 0) = [3]"
  "arrs order_final 2 = [4, 5]"
  "crawledPages order_final = [(''/a'', 0), (''/c'', Suc 0), (''/b'', 3)]"
  "map fst (loads order_final) = [''/a'', ''/c'', ''/b'']"
  using order_run by (auto simp: order_final_def)

lemma order_registry:
  "\<forall>u a. map_of (crawledPages order_before) u = Some a \<longrightarrow> url (objs order_before a) = u"
  by (auto simp: order_before_facts split: if_splits)

lemma order_hyps:
  "int (Suc 0) \<le> maxDepth shared_cfg"
  "map_of (crawledPages order_before) (url (objs order_before 2)) = Some 3"
  "children (objs order_before 3) = Some 2"
  by (simp_all add: order_before_facts shared_cfg_def)

lemma example_run:
  "\<exists>w. run example_cfg (example_site ta tb tc) = Inr w
     \<and> objs w 0 = \<lparr>url = ''https://example.com/a'', title = Some ta, children = Some 0\<rparr>
     \<and> objs w (Suc 0) = \<lparr>url = ''https://example.com/b'', title = Some tb, children = Some (Suc 0)\<rparr>
     \<and> objs w 2 = \<lparr>url = ''https://example.com/c'', title = Some tc, children = Some 2\<rparr>
     \<and> objs w 3 = \<lparr>url = ''https://example.com/b'', title = None, children = None\<rparr>
     \<and> arrs w 0 = [Suc 0, 2] \<and> arrs w (Suc 0) = [] \<and> arrs w 2 = [3]"
  by (simp add: eval_defs example_site_def example_cfg_def)

lemma example_facts:
  "objs example_final 0 = \<lparr>url = ''https://example.com/a'', title = Some ''A'', children = Some 0\<rparr>"
  "objs example_final (Suc 0) = \<lparr>url = ''https://example.com/b'', title = Some ''B'', children = Some (Suc 0)\<rparr>"
  "objs example_final 2 = \<lparr>url = ''https://example.com/c'', title = Some ''C'', children = Some 2\<rparr>"
  "objs example_final 3 = \<lparr>url = ''https://example.com/b'', title = None, children = None\<rparr>"
  "arrs example_final 0 = [Suc 0, 2]" "arrs example_final (Suc 0) = []" "arrs example_final 2 = [3]"
  using example_run[of "''A''" "''B''" "''C''"] by (auto simp: example_final_def)

lemma deep_run:
  "\<exists>w. run deep_cfg shared_site = Inl (NavigationError, w)
     \<and> next_obj w = 5 \<and> next_arr w = 3
     \<and> objs w 4 = \<lparr>url = ''/e'', title = None, children = None\<rparr>
     \<and> crawledPages w = [(''/a'', 0), (''/b'', Suc 0), (''/d'', 3)]
     \<and> map fst (loads w) = [''/a'', ''/b'', ''/d'', ''/e'']
     \<and> snd (last (loads w)) = Inl NavigationError"
  by (simp add: eval_defs shared_site_def deep_cfg_def)

lemma deep_thrown: "run deep_cfg shared_site = Inl (NavigationError, deep_final)"
  using deep_run by (auto simp: deep_final_def)

lemma deep_facts:
  "next_obj deep_final = 5" "next_arr deep_final = 3"
  "objs deep_final 4 = \<lparr>url = ''/e'', title = None, children = None\<rparr>"
  "crawledPages deep_final = [(''/a'', 0), (''/b'', Suc 0), (''/d'', 3)]"
  "map fst (loads deep_final) = [''/a'', ''/b'', ''/d'', ''/e'']"
  "snd (last (loads deep_final)) = Inl NavigationError"
  using deep_run by (auto simp: deep_final_def)

lemma loop_run:
  "\<exists>w. run shared_cfg loop_site = Inr w
     \<and> objs w 0 = \<lparr>url = ''/a'', title = Some ''A'', children = Some 0\<rparr>
     \<and> objs w (Suc 0) = \<lparr>url = ''/b'', title = Some ''B'', children = Some (Suc 0)\<rparr>
     \<and> objs w 2 = \<lparr>url = ''/c'', title = Some ''C'', children = Some 2\<rparr>
     \<and> objs w 3 = \<lparr>url = ''/b'', title = None, children = None\<rparr>
     \<and> arrs w 0 = [Suc 0] \<and> arrs w (Suc 0) = [2] \<and> arrs w 2 = [3]"
  by (simp add: eval_defs loop_site_def shared_cfg_def)

lemma loop_facts:
  "objs loop_final 0 = \<lparr>url = ''/a'', title = Some ''A'', children = Some 0\<rparr>"
  "objs loop_final (Suc 0) = \<lparr>url = ''/b'', title = Some ''B'', children = Some (Suc 0)\<rparr>"
  "objs loop_final 2 = \<lparr>url = ''/c'', title = Some ''C'', children = Some 2\<rparr>"
  "objs loop_final 3 = \<lparr>url = ''/b'', title = None, children = None\<rparr>"
  "arrs loop_final 0 = [Suc 0]" "arrs loop_final (Suc 0) = [2]" "arrs loop_final 2 = [3]"
  using loop_run by (auto simp: loop_final_def)

lemma loop_own: "own_url_excluded loop_site (loads loop_final)"
proof -
  have "\<exists>w. run shared_cfg loop_site = Inr w
          \<and> (\<forall>x\<in>set (loads w). \<forall>pg. snd x = Inr pg \<longrightarrow> location_href pg = fst x)"
    by (simp add: eval_defs loop_site_def shared_cfg_def)
  then have "\<forall>x\<in>set (loads loop_final). \<forall>pg. snd x = Inr pg \<longrightarrow> location_href pg = fst x"
    by (auto simp: loop_final_def)
  then show ?thesis
    by (rule own_url_excluded_href)
qed

lemma crawl_single_child:
  assumes "int depth \<le> maxDepth cfg"
    and "map_of (crawledPages w) (url (objs w page)) = None"
    and "load_page cfg br w page = Inr w1"
    and "children (objs w1 page) = Some a" "arrs w1 a = [c]"
  shows "crawl cfg br w page depth = crawl cfg br w1 c (Suc depth)"
proof -
  have "crawl cfg br w page depth = crawl_each cfg br w1 [c] (Suc depth)"
    using assms by (simp add: crawl.simps[of cfg br w page depth])
  then show ?thesis
    by (simp only: crawl_each_single)
qed

lemma level_before_facts:
  "objs level_before (Suc 0) = \<lparr>url = ''/b'', title = Some ''B'', children = Some (Suc 0)\<rparr>"
  "objs level_before 3 = \<lparr>url = ''/d'', title = Some ''D'', children = Some 2\<rparr>"
  "objs level_before 4 = \<lparr>url = ''/e'', title = Some ''E'', children = Some 3\<rparr>"
  "objs level_before 5 = \<lparr>url = ''/b'', title = None, children = None\<rparr>"
  "arrs level_before (Suc 0) = [3]" "arrs level_before 2 = [4]" "arrs level_before 3 = []"
  "crawledPages level_before = [(''/a'', 0), (''/b'', Suc 0), (''/d'', 3), (''/e'', 4), (''/c'', 2)]"
  "map fst (loads level_before) = [''/a'', ''/b'', ''/d'', ''/e'', ''/c'']"
  by (simp_all add: level_before_def eval_defs level_site_def deep_cfg_def)

lemma level_step:
  "run deep_cfg level_site = crawl deep_cfg level_site level_before 5 2"
proof -
  define w1 where "w1 = final_world (load_page deep_cfg level_site (initial deep_cfg) 0)"
  define w2 where "w2 = final_world (crawl deep_cfg level_site w1 1 1)"
  have "\<exists>w. load_page deep_cfg level_site (initial deep_cfg) 0 = Inr w"
    by (simp add: eval_defs level_site_def deep_cfg_def)
  then have 1: "load_page deep_cfg level_site (initial deep_cfg) 0 = Inr w1"
    by (auto simp: w1_def)
  have 2: "children (objs w1 0) = Some 0" "arrs w1 0 = [Suc 0, 2]"
    by (simp_all add: w1_def eval_defs level_site_def deep_cfg_def)
  have "\<exists>w. crawl deep_cfg level_site w1 (Suc 0) (Suc 0) = Inr w"
    by (simp add: w1_def eval_defs level_site_def deep_cfg_def)
  then have 3: "crawl deep_cfg level_site w1 (Suc 0) (Suc 0) = Inr w2"
    by (auto simp: w2_def)
  have d0: "0 \<le> maxDepth deep_cfg" and d1: "int (Suc 0) \<le> maxDepth deep_cfg"
    by (simp_all add: deep_cfg_def)
  have 4: "map_of (crawledPages w2) (url (objs w2 2)) = None"
    by (simp add: w2_def w1_def eval_defs level_site_def deep_cfg_def)
  have "\<exists>w. load_page deep_cfg level_site w2 2 = Inr w"
    by (simp add: w2_def w1_def eval_defs level_site_def deep_cfg_def)
  then have 5: "load_page deep_cfg level_site w2 2 = Inr level_before"
    by (auto simp: level_before_def w2_def w1_def)
  have 6: "children (objs level_before 2) = Some 4" "arrs level_before 4 = [5]"
    by (simp_all add: level_before_def eval_defs level_site_def deep_cfg_def)
  have "run deep_cfg level_site = crawl deep_cfg level_site w2 2 (Suc 0)"
    by (rule run_second_child[OF d0 1 2 3])
  also have "\<dots> = crawl deep_cfg level_site level_before 5 (Suc (Suc 0))"
    by (rule crawl_single_child[OF d1 4 5 6])
  finally show ?thesis
    by (simp add: numeral_2_eq_2)
qed

lemma level_run:
  "\<exists>w. run deep_cfg level_site = Inr w
     \<and> objs w (Suc 0) = \<lparr>url = ''/b'', title = Some ''B'', children = Some (Suc 0)\<rparr>
     \<and> objs w 3 = \<lparr>url = ''/d'', title = Some ''D'', children = Some 2\<rparr>
     \<and> objs w 4 = \<lparr>url = ''/e'', title = Some ''E'', children = Some 3\<rparr>
     \<and> objs w 5 = \<lparr>url = ''/b'', title = Some ''B'', children = Some (Suc 0)\<rparr>
     \<and> arrs w (Suc 0) = [3] \<and> arrs w 2 = [4] \<and> arrs w 3 = []
     \<and> crawledPages w = [(''/a'', 0), (''/b'', Suc 0), (''/d'', 3), (''/e'', 4), (''/c'', 2)]
     \<and> map fst (loads w) = [''/a'', ''/b'', ''/d'', ''/e'', ''/c'']"
  by (simp add: eval_defs level_site_def deep_cfg_def)

lemma level_returns:
  "crawl deep_cfg level_site level_before 5 2 = Inr level_final"
  using level_run by (auto simp: level_final_def simp flip: level_step)

lemma level_facts:
  "objs level_final (Suc 0) = \<lparr>url = ''/b'', title = Some ''B'', children = Some (Suc 0)\<rparr>"
  "objs level_final 3 = \<lparr>url = ''/d'', title = Some ''D'', children = Some 2\<rparr>"
  "objs level_final 4 = \<lparr>url = ''/e'', title = Some ''E'', children = Some 3\<rparr>"
  "objs level_final 5 = \<lparr>url = ''/b'', title = Some ''B'', children = Some (Suc 0)\<rparr>"
  "arrs level_final (Suc 0) = [3]" "arrs level_final 2 = [4]" "arrs level_final 3 = []"
  "crawledPages level_final = [(''/a'', 0), (''/b'', Suc 0), (''/d'', 3), (''/e'', 4), (''/c'', 2)]"
  "map fst (loads level_final) = [''/a'', ''/b'', ''/d'', ''/e'', ''/c'']"
  using level_run by (auto simp: level_final_def)

lemma fail_run:
  "\<exists>w. run deep_cfg fail_site = Inl (NavigationError, w)
     \<and> objs w (Suc 0) = \<lparr>url = ''/b'', title = Some ''B'', children = Some (Suc 0)\<rparr>
     \<and> objs w 3 = \<lparr>url = ''/d'', title = Some [], children = None\<rparr>
     \<and> objs w 4 = \<lparr>url = ''/b'', title = Some ''B'', children = Some (Suc 0)\<rparr>
     \<and> arrs w (Suc 0) = [2, 3]
     \<and> crawledPages w = [(''/a'', 0), (''/b'', Suc 0), (''/c'', 2)]
     \<and> map fst (loads w) = [''/a'', ''/b'', ''/c'', ''/d'']
     \<and> snd (last (loads w)) = Inl NavigationError"
  by (simp add: eval_defs fail_site_def deep_cfg_def)

lemma fail_thrown: "run deep_cfg fail_site = Inl (NavigationError, fail_final)"
  using fail_run by (auto simp: fail_final_def)

lemma fail_facts:
  "objs fail_final (Suc 0) = \<lparr>url = ''/b'', title = Some ''B'', children = Some (Suc 0)\<rparr>"
  "objs fail_final 3 = \<lparr>url = ''/d'', title = Some [], children = None\<rparr>"
  "objs fail_final 4 = \<lparr>url = ''/b'', title = Some ''B'', children = Some (Suc 0)\<rparr>"
  "arrs fail_final (Suc 0) = [2, 3]"
  "crawledPages fail_final = [(''/a'', 0), (''/b'', Suc 0), (''/c'', 2)]"
  "map fst (loads fail_final) = [''/a'', ''/b'', ''/c'', ''/d'']"
  "snd (last (loads fail_final)) = Inl NavigationError"
  using fail_run by (auto simp: fail_final_def)

lemma cookie_run:
  "\<exists>w. run cookie_cfg cookie_site = Inr w
     \<and> cookie_sightings (loads w) =
      [(''/a'', \<lparr>name = ''session'', attributes = [(''value'', ''1'')], firstFound = None\<rparr>),
       (''/b'', \<lparr>name = ''session'', attributes = [(''value'', ''2'')], firstFound = None\<rparr>),
       (''/b'', \<lparr>name = ''lang'', attributes = [(''value'', ''en'')], firstFound = None\<rparr>)]"
  by (simp add: eval_defs cookie_site_def cookie_cfg_def cookie_sightings_def)

lemma iframe_run:
  "\<exists>w. run cookie_cfg iframe_site = Inr w
     \<and> iframe_sightings (loads w) = [(''/a'', ''/ad''), (''/b'', ''/map''), (''/b'', ''/ad'')]"
  by (simp add: eval_defs iframe_site_def cookie_cfg_def iframe_sightings_def)

lemma cookie_first_run:
  "\<exists>w. load_page cookie_cfg cookie_site (initial cookie_cfg) 0 = Inr w
     \<and> crawledCookies w =
         [(''session'', \<lparr>name = ''session'', attributes = [(''value'', ''1'')], firstFound = Some ''/a''\<rparr>)]"
  by (simp add: eval_defs cookie_site_def cookie_cfg_def)

lemma cookie_first_facts:
  "crawledCookies cookie_first =
     [(''session'', \<lparr>name = ''session'', attributes = [(''value'', ''1'')], firstFound = Some ''/a''\<rparr>)]"
  using cookie_first_run by (auto simp: cookie_first_def)

lemma iframe_first_run:
  "\<exists>w. load_page cookie_cfg iframe_site (initial cookie_cfg) 0 = Inr w
     \<and> crawledIframes w = [(''/ad'', \<lparr>iframe_src = ''/ad'', iframe_firstFound = ''/a''\<rparr>)]"
  by (simp add: eval_defs iframe_site_def cookie_cfg_def)

lemma iframe_first_facts:
  "crawledIframes iframe_first = [(''/ad'', \<lparr>iframe_src = ''/ad'', iframe_firstFound = ''/a''\<rparr>)]"
  using iframe_first_run by (auto simp: iframe_first_def)

lemma cookie_second_run:
  "map fst (loads cookie_second) = [''/a'', ''/b'']
   \<and> map fst (crawledCookies cookie_second) = [''session'', ''lang'']"
  by (simp add: cookie_second_def cookie_first_def eval_defs cookie_site_def cookie_cfg_def)

lemma iframe_second_run:
  "map fst (loads iframe_second) = [''/a'', ''/b'']
   \<and> map fst (crawledIframes iframe_second) = [''/ad'', ''/map'']"
  by (simp add: iframe_second_def iframe_first_def eval_defs iframe_site_def cookie_cfg_def)

section \<open>The claims\<close>

subsection \<open>C1: at most one fetch\<close>

text \<open>
  C1. In every run, returned or aborted, no URL is loaded twice: the URLs of the calls
  of \<open>newPage.goto\<close> are pairwise different. The registry is consulted before each
  load and written in the same visit: when the run returns, the keys of
  \<open>crawledPages\<close> are the loaded URLs in the order of loading; when it is aborted,
  they are the loaded URLs but the last.
\<close>

theorem at_most_one_fetch:
  "distinct (map fst (loads (final_world (run cfg br))))
   \<and> (case run cfg br of
        Inr w \<Rightarrow> map fst (crawledPages w) = map fst (loads w)
      | Inl (e, w) \<Rightarrow> map fst (crawledPages w) = butlast (map fst (loads w)))"
proof (cases cfg br rule: run_cases)
  case (returned w)
  then show ?thesis
    using reach_loads[of cfg br w] reach_distinct_loads[of cfg br w] by simp
next
  case (thrown e w u)
  from thrown(3) have "u \<notin> fst ` set (crawledPages w)"
    by (simp add: map_of_eq_None_iff)
  then have "u \<notin> set (map fst (loads w))"
    using reach_loads[OF thrown(2)] by (metis set_map)
  then show ?thesis
    using thrown(1) reach_loads[OF thrown(2)] reach_distinct_loads[OF thrown(2)] by simp
qed

text \<open>On \<open>shared_site\<close> the URL \<open>/b\<close> occurs twice as a child and is loaded once.\<close>

theorem at_most_one_fetch_witness:
  "url (objs shared_final (Suc 0)) = ''/b'' \<and> url (objs shared_final 5) = ''/b''
   \<and> map fst (loads shared_final) = [''/a'', ''/b'', ''/d'', ''/c'']
   \<and> distinct (map fst (loads shared_final))
   \<and> map fst (crawledPages shared_final) = map fst (loads shared_final)"
  using at_most_one_fetch[of shared_cfg shared_site]
  by (simp add: shared_returns shared_facts flip: shared_final_def)

subsection \<open>C2: the depth bound\<close>




subsection \<open>C3: the branch that reuses a route\<close>

text \<open>
  C3, as stated, fails in its last part: the branch does not expose exactly one further
  level of known titles. In the run of \<open>level_site\<close> the last visit is that of
  object 5, the \<open>/b\<close> found below \<open>/c\<close>; \<open>/b\<close> is registered (object 1) and the
  object is bare. After the visit two levels of titles lie below it: \<open>/d\<close> with title
  \<open>D\<close> and, below that, \<open>/e\<close> with title \<open>E\<close>.
\<close>

theorem one_level_counterexample:
  "run deep_cfg level_site = crawl deep_cfg level_site level_before 5 2
   \<and> crawl deep_cfg level_site level_before 5 2 = Inr level_final
   \<and> int 2 \<le> maxDepth deep_cfg
   \<and> map_of (crawledPages level_before) (url (objs level_before 5)) = Some 1
   \<and> objs level_before 5 = \<lparr>url = ''/b'', title = None, children = None\<rparr>
   \<and> tree_of 3 level_final 5 =
       PageTree ''/b'' (Some ''B'')
         (Some [PageTree ''/d'' (Some ''D'')
            (Some [PageTree ''/e'' (Some ''E'') (Some [])])])"
  using level_step level_returns
  by (simp add: tree_of_pos level_facts level_before_facts deep_cfg_def)

text \<open>
  C3, amended. When \<open>crawl\<close> is called within the depth bound on an object whose URL
  is a key of \<open>crawledPages\<close> (in a world where each key leads to an object of that
  URL and the entry found has children, as in every world of a run), it returns
  normally and: the object has the entry's title and the entry's children array
  itself; each child in that array whose URL is registered has the title of its entry;
  no other object changes, no object other than the visited one gets or changes
  children (no child is crawled), and nothing is loaded or registered. The object is
  then equal to the entry field by field, so the tree below it is the tree below the
  entry at every depth: all that was explored below the entry is exposed, not one level.
\<close>

theorem reuse_route_copies:
  assumes depth: "int depth \<le> maxDepth cfg"
    and hit: "map_of (crawledPages w) (url (objs w page)) = Some item"
    and reg: "\<forall>u a. map_of (crawledPages w) u = Some a \<longrightarrow> url (objs w a) = u"
    and arr: "children (objs w item) = Some arr"
  shows "\<exists>w'. crawl cfg br w page depth = Inr w'
     \<and> title (objs w' page) = title (objs w item)
     \<and> children (objs w' page) = Some arr
     \<and> (\<forall>c\<in>set (arrs w arr). \<forall>i. map_of (crawledPages w) (url (objs w c)) = Some i
            \<longrightarrow> title (objs w' c) = title (objs w i))
     \<and> (\<forall>p. p \<noteq> page \<longrightarrow> children (objs w' p) = children (objs w p))
     \<and> (\<forall>p. url (objs w' p) = url (objs w p))
     \<and> (\<forall>p. p \<noteq> page \<longrightarrow> p \<notin> set (arrs w arr) \<longrightarrow> objs w' p = objs w p)
     \<and> loads w' = loads w \<and> crawledPages w' = crawledPages w
     \<and> crawledCookies w' = crawledCookies w \<and> crawledIframes w' = crawledIframes w
     \<and> arrs w' = arrs w \<and> next_arr w' = next_arr w \<and> next_obj w' = next_obj w
     \<and> objs w' page = objs w' item
     \<and> (\<forall>k. tree_of k w' page = tree_of k w' item)"
proof -
  from reuse_route_effect[OF reg hit arr] obtain w' where
    rr: "reuse_route w page item = Inr w'"
    and fr: "next_obj w' = next_obj w" "arrs w' = arrs w" "next_arr w' = next_arr w"
      "crawledPages w' = crawledPages w" "crawledCookies w' = crawledCookies w"
      "crawledIframes w' = crawledIframes w" "loads w' = loads w"
    and u: "\<And>p. url (objs w' p) = url (objs w p)"
    and ch: "\<And>p. children (objs w' p) = (if p = page then Some arr else children (objs w p))"
    and t: "\<And>p. title (objs w' p) =
            (if p \<in> set (arrs w arr) then known_title w p
             else if p = page then title (objs w item) else title (objs w p))"
    by blast
  have 1: "crawl cfg br w page depth = Inr w'"
    using crawl_reuse[OF depth hit] rr by simp
  have 2: "title (objs w' page) = title (objs w item)"
    by (simp add: t known_title_def hit)
  have 3: "title (objs w' c) = title (objs w i)"
    if "c \<in> set (arrs w arr)" "map_of (crawledPages w) (url (objs w c)) = Some i" for c i
    using that by (simp add: t known_title_def)
  have 4: "objs w' p = objs w p" if "p \<noteq> page" "p \<notin> set (arrs w arr)" for p
    using that by (intro page_node.equality) (simp_all add: u ch t)
  from reg hit have ui: "url (objs w item) = url (objs w page)"
    by simp
  with hit have "known_title w item = title (objs w item)"
    by (simp add: known_title_def)
  then have ti: "title (objs w' item) = title (objs w item)"
    by (simp add: t)
  have 5: "objs w' page = objs w' item"
    using arr by (intro page_node.equality) (simp_all add: u ui ch 2 ti)
  have 6: "tree_of k w' page = tree_of k w' item" for k
    by (cases k) (simp_all add: 5)
  have 7: "children (objs w' page) = Some arr"
    by (simp add: ch)
  have 8: "children (objs w' p) = children (objs w p)" if "p \<noteq> page" for p
    using that by (simp add: ch)
  show ?thesis
    using 1 2 3 4 5 6 7 8 fr u by blast
qed

text \<open>
  In the run of \<open>order_site\<close>, the visit of object 2 (\<open>/b\<close>, registered as
  object 3): it gets the title \<open>B\<close> and the array of object 3; the child \<open>/c\<close>
  (object 5) gets its registered title and no children; object 3 is as it was, the
  two objects are equal, and nothing is loaded or registered.
\<close>

theorem reuse_route_copies_witness:
  "crawl shared_cfg order_site order_before 2 1 = Inr order_final
   \<and> title (objs order_final 2) = Some ''B'' \<and> children (objs order_final 2) = Some 2
   \<and> arrs order_final 2 = [4, 5]
   \<and> title (objs order_final 5) = Some ''C'' \<and> children (objs order_final 5) = None
   \<and> objs order_final 3 = objs order_before 3
   \<and> objs order_final 2 = objs order_final 3
   \<and> tree_of 2 order_final 2 = tree_of 2 order_final 3
   \<and> loads order_final = loads order_before
   \<and> crawledPages order_final = crawledPages order_before"
proof -
  from reuse_route_copies[OF order_hyps(1,2) order_registry order_hyps(3), of order_site]
  obtain w' where w': "crawl shared_cfg order_site order_before 2 (Suc 0) = Inr w'"
    and f: "title (objs w' 2) = title (objs order_before 3)"
      "children (objs w' 2) = Some 2"
      "\<forall>c\<in>set (arrs order_before 2). \<forall>i. map_of (crawledPages order_before) (url (objs order_before c)) = Some i
            \<longrightarrow> title (objs w' c) = title (objs order_before i)"
      "\<forall>p. p \<noteq> 2 \<longrightarrow> children (objs w' p) = children (objs order_before p)"
      "\<forall>p. p \<noteq> 2 \<longrightarrow> p \<notin> set (arrs order_before 2) \<longrightarrow> objs w' p = objs order_before p"
      "loads w' = loads order_before" "crawledPages w' = crawledPages order_before"
      "arrs w' = arrs order_before"
      "objs w' 2 = objs w' 3"
      "\<forall>k. tree_of k w' 2 = tree_of k w' 3"
    by (elim exE conjE) simp
  have eq: "order_final = w'"
    using w' order_returns by simp
  have "title (objs w' 5) = title (objs order_before (Suc 0))"
    using f(3) by (simp add: order_before_facts)
  moreover have "children (objs w' 5) = children (objs order_before 5)"
    using f(4) by simp
  moreover have "objs w' 3 = objs order_before 3"
    using f(5) by (simp add: order_before_facts)
  moreover have "tree_of 2 w' 2 = tree_of 2 w' 3"
    using f(10) by blast
  ultimately show ?thesis
    using f(1,2,6,7,8,9) order_returns by (simp add: eq order_before_facts)
qed

subsection \<open>C4: copies or shared references\<close>

text \<open>
  C4, as stated, fails. After the run of \<open>order_site\<close> the objects 2 and 3 are
  two occurrences of \<open>/b\<close>, object 3 being the registry entry, and their
  \<open>children\<close> fields hold the same array: the same child objects 4 and 5 lie below
  both, so that object 5 is found two links below the root (through object 2) and
  three links below it (through objects 1 and 3). And a write below one occurrence
  shows below the other: the last visit of the run, that of object 2, starts in
  \<open>order_before\<close>, where the child 4 of the registry entry has no title, and gives
  that child the title \<open>''\<close>.
\<close>

theorem children_copied_counterexample:
  "url (objs order_final 2) = ''/b'' \<and> url (objs order_final 3) = ''/b''
   \<and> map_of (crawledPages order_final) ''/b'' = Some 3
   \<and> children (objs order_final 2) = Some 2 \<and> children (objs order_final 3) = Some 2
   \<and> nodes_at order_final 1 2 = [4, 5] \<and> nodes_at order_final 1 3 = [4, 5]
   \<and> nodes_at order_final 2 0 = [3, 4, 5] \<and> nodes_at order_final 3 0 = [4, 5]
   \<and> run shared_cfg order_site = crawl shared_cfg order_site order_before 2 1
   \<and> crawl shared_cfg order_site order_before 2 1 = Inr order_final
   \<and> nodes_at order_before 1 3 = [4, 5]
   \<and> title (objs order_before 4) = None \<and> title (objs order_final 4) = Some []"
  using order_step order_returns by (simp add: nodes_at_pos order_facts order_before_facts)

text \<open>
  C4, amended. Every link found in a loaded page becomes a page object of its own: no
  object is stored in two array slots (the slots of all arrays, in order, are the
  objects 1, 2, ... allocated after the root, each once). But a position in the tree is
  not an object of its own. A visit within the depth bound that finds the URL of its
  object registered copies the entry's title onto the object and assigns the entry's
  array itself to its \<open>children\<close>: after the visit the object and the registry entry
  refer to the same array, whose content is as before, and the objects found any number
  of links below the one are the very objects found below the other. The child objects
  are shared, and so is everything below them.
\<close>

theorem children_shared_by_reference:
  "slots (final_world (run cfg br)) = [1..<next_obj (final_world (run cfg br))]
   \<and> (int depth \<le> maxDepth cfg
       \<and> map_of (crawledPages w) (url (objs w page)) = Some item
       \<and> (\<forall>u a. map_of (crawledPages w) u = Some a \<longrightarrow> url (objs w a) = u)
       \<and> children (objs w item) = Some arr
      \<longrightarrow> (\<exists>w'. crawl cfg br w page depth = Inr w'
             \<and> title (objs w' page) = title (objs w item)
             \<and> children (objs w' page) = Some arr
             \<and> children (objs w' item) = Some arr
             \<and> arrs w' = arrs w
             \<and> (\<forall>k. nodes_at w' (Suc k) page = nodes_at w' (Suc k) item)))"
proof (intro conjI impI)
  show "slots (final_world (run cfg br)) = [1..<next_obj (final_world (run cfg br))]"
    by (rule run_slots)
next
  assume a: "int depth \<le> maxDepth cfg
       \<and> map_of (crawledPages w) (url (objs w page)) = Some item
       \<and> (\<forall>u a. map_of (crawledPages w) u = Some a \<longrightarrow> url (objs w a) = u)
       \<and> children (objs w item) = Some arr"
  then have depth: "int depth \<le> maxDepth cfg"
    and hit: "map_of (crawledPages w) (url (objs w page)) = Some item"
    and reg: "\<forall>u a. map_of (crawledPages w) u = Some a \<longrightarrow> url (objs w a) = u"
    and arr: "children (objs w item) = Some arr"
    by simp_all
  from reuse_route_effect[OF reg hit arr] obtain w' where
    rr: "reuse_route w page item = Inr w'"
    and fr: "arrs w' = arrs w"
    and ch: "\<And>p. children (objs w' p) = (if p = page then Some arr else children (objs w p))"
    and t: "\<And>p. title (objs w' p) =
            (if p \<in> set (arrs w arr) then known_title w p
             else if p = page then title (objs w item) else title (objs w p))"
    by blast
  have "crawl cfg br w page depth = Inr w'"
    using crawl_reuse[OF depth hit] rr by simp
  moreover have "title (objs w' page) = title (objs w item)"
    by (simp add: t known_title_def hit)
  moreover have ci: "children (objs w' item) = Some arr"
    using arr by (simp add: ch)
  moreover have cp: "children (objs w' page) = Some arr"
    by (simp add: ch)
  moreover have "nodes_at w' (Suc k) page = nodes_at w' (Suc k) item" for k
    by (simp add: ci cp)
  ultimately show "\<exists>w'. crawl cfg br w page depth = Inr w'
             \<and> title (objs w' page) = title (objs w item)
             \<and> children (objs w' page) = Some arr
             \<and> children (objs w' item) = Some arr
             \<and> arrs w' = arrs w
             \<and> (\<forall>k. nodes_at w' (Suc k) page = nodes_at w' (Suc k) item)"
    using fr by blast
qed

text \<open>
  On the run of \<open>order_site\<close>: the slots are the objects 1 to 5, and the visit of
  object 2 (\<open>/b\<close>) leaves it with the title and the array of object 3, and with the
  same objects one link below.
\<close>

theorem children_shared_by_reference_witness:
  "slots order_final = [1, 2, 3, 4, 5]
   \<and> title (objs order_final 2) = Some ''B''
   \<and> children (objs order_final 2) = Some 2
   \<and> children (objs order_final 3) = Some 2
   \<and> arrs order_final 2 = [4, 5]
   \<and> nodes_at order_final 1 2 = nodes_at order_final 1 3"
proof -
  note inst = children_shared_by_reference[of shared_cfg order_site "Suc 0" order_before 2 3 2]
  from inst have "slots order_final = [1..<next_obj order_final]"
    by (simp add: order_final_def)
  then have 1: "slots order_final = [Suc 0, 2, 3, 4, 5]"
    by (simp add: order_facts upt_rec)
  from inst order_hyps order_registry
  obtain w' where w': "crawl shared_cfg order_site order_before 2 (Suc 0) = Inr w'"
    and f: "title (objs w' 2) = title (objs order_before 3)"
      "children (objs w' 2) = Some 2" "children (objs w' 3) = Some 2"
      "arrs w' = arrs order_before"
      "\<forall>k. nodes_at w' (Suc k) 2 = nodes_at w' (Suc k) 3"
    by auto
  have eq: "order_final = w'"
    using w' order_returns by simp
  from f(5) have "nodes_at w' (Suc 0) 2 = nodes_at w' (Suc 0) 3"
    by blast
  then show ?thesis
    using 1 f(1-4) by (simp add: eq order_before_facts del: nodes_at.simps)
qed

subsection \<open>C5: first seen wins\<close>

text \<open>
  C5. When a run returns, the cookie registry holds for each name the first sighting of
  that name in the order of the traversal: the cookie as it was returned then, whatever
  later sightings carry, with \<open>firstFound\<close> the URL of the page being visited; and a
  name never sighted has no record. The same holds for the iframe registry and the
  iframe sources. And no call of \<open>crawl\<close>, from whatever world, changes a record that
  is in one of the two registries.
\<close>

theorem first_seen_wins:
  "(run cfg br = Inr w \<longrightarrow>
      map_of (crawledCookies w) n =
        map_option (\<lambda>(u, c). c\<lparr>firstFound := Some u\<rparr>)
          (find (\<lambda>(u, c). name c = n) (cookie_sightings (loads w)))
    \<and> map_of (crawledIframes w) s =
        map_option (\<lambda>(u, x). \<lparr>iframe_src = x, iframe_firstFound = u\<rparr>)
          (find (\<lambda>(u, x). x = s) (iframe_sightings (loads w))))
   \<and> (map_of (crawledCookies w0) n = Some c \<longrightarrow>
        map_of (crawledCookies (final_world (crawl cfg br w0 page depth))) n = Some c)
   \<and> (map_of (crawledIframes w0) s = Some r \<longrightarrow>
        map_of (crawledIframes (final_world (crawl cfg br w0 page depth))) s = Some r)"
proof -
  have 1: "map_of (crawledCookies w) n =
        map_option (\<lambda>(u, c). c\<lparr>firstFound := Some u\<rparr>)
          (find (\<lambda>(u, c). name c = n) (cookie_sightings (loads w)))
    \<and> map_of (crawledIframes w) s =
        map_option (\<lambda>(u, x). \<lparr>iframe_src = x, iframe_firstFound = u\<rparr>)
          (find (\<lambda>(u, x). x = s) (iframe_sightings (loads w)))"
    if "run cfg br = Inr w"
  proof -
    from that run_reach[of cfg br] have "reach cfg br w" by simp
    note reg = reach_registries[OF this]
    show ?thesis
      using map_of_cookie_sightings[of "[]" "cookie_sightings (loads w)" n]
        map_of_iframe_sightings[of "[]" "iframe_sightings (loads w)" s] reg
      by simp
  qed
  have 2: "(map_of (crawledCookies w0) n = Some c \<longrightarrow>
        map_of (crawledCookies (final_world (crawl cfg br w0 page depth))) n = Some c)
   \<and> (map_of (crawledIframes w0) s = Some r \<longrightarrow>
        map_of (crawledIframes (final_world (crawl cfg br w0 page depth))) s = Some r)"
    by (rule crawl_keeps_registries(1)) simp
  from 1 2 show ?thesis by blast
qed

text \<open>
  On \<open>cookie_site\<close> the cookie \<open>session\<close> is recorded with the value and the URL
  of \<open>/a\<close>, though \<open>/b\<close> returns it with another value; on \<open>iframe_site\<close> the
  iframe \<open>/ad\<close> is recorded for \<open>/a\<close>. Visiting \<open>/b\<close> after the seed changes
  neither record.
\<close>

theorem first_seen_wins_witness:
  "map_of (crawledCookies cookie_final) ''session'' =
     Some \<lparr>name = ''session'', attributes = [(''value'', ''1'')], firstFound = Some ''/a''\<rparr>
   \<and> map_of (crawledCookies cookie_final) ''lang'' =
     Some \<lparr>name = ''lang'', attributes = [(''value'', ''en'')], firstFound = Some ''/b''\<rparr>
   \<and> map_of (crawledIframes iframe_final) ''/ad'' =
     Some \<lparr>iframe_src = ''/ad'', iframe_firstFound = ''/a''\<rparr>
   \<and> map_of (crawledIframes iframe_final) ''/map'' =
     Some \<lparr>iframe_src = ''/map'', iframe_firstFound = ''/b''\<rparr>
   \<and> map fst (loads cookie_second) = [''/a'', ''/b'']
   \<and> map_of (crawledCookies cookie_second) ''session'' =
     Some \<lparr>name = ''session'', attributes = [(''value'', ''1'')], firstFound = Some ''/a''\<rparr>
   \<and> map fst (loads iframe_second) = [''/a'', ''/b'']
   \<and> map_of (crawledIframes iframe_second) ''/ad'' =
     Some \<lparr>iframe_src = ''/ad'', iframe_firstFound = ''/a''\<rparr>"
proof -
  from cookie_run obtain w where w: "run cookie_cfg cookie_site = Inr w"
    and cs: "cookie_sightings (loads w) =
      [(''/a'', \<lparr>name = ''session'', attributes = [(''value'', ''1'')], firstFound = None\<rparr>),
       (''/b'', \<lparr>name = ''session'', attributes = [(''value'', ''2'')], firstFound = None\<rparr>),
       (''/b'', \<lparr>name = ''lang'', attributes = [(''value'', ''en'')], firstFound = None\<rparr>)]"
    by (elim exE conjE)
  from iframe_run obtain v where v: "run cookie_cfg iframe_site = Inr v"
    and fs: "iframe_sightings (loads v) = [(''/a'', ''/ad''), (''/b'', ''/map''), (''/b'', ''/ad'')]"
    by (elim exE conjE)
  have cf: "cookie_final = w" "iframe_final = v"
    by (simp_all add: cookie_final_def iframe_final_def w v)
  have 1: "map_of (crawledCookies w) ''session'' =
     Some \<lparr>name = ''session'', attributes = [(''value'', ''1'')], firstFound = Some ''/a''\<rparr>"
    using first_seen_wins[of cookie_cfg cookie_site w "''session''"] w by (simp add: cs)
  have 2: "map_of (crawledCookies w) ''lang'' =
     Some \<lparr>name = ''lang'', attributes = [(''value'', ''en'')], firstFound = Some ''/b''\<rparr>"
    using first_seen_wins[of cookie_cfg cookie_site w "''lang''"] w by (simp add: cs)
  have 3: "map_of (crawledIframes v) ''/ad'' =
     Some \<lparr>iframe_src = ''/ad'', iframe_firstFound = ''/a''\<rparr>"
    using first_seen_wins[of cookie_cfg iframe_site v _ "''/ad''"] v by (simp add: fs)
  have 4: "map_of (crawledIframes v) ''/map'' =
     Some \<lparr>iframe_src = ''/map'', iframe_firstFound = ''/b''\<rparr>"
    using first_seen_wins[of cookie_cfg iframe_site v _ "''/map''"] v by (simp add: fs)
  have 5: "map_of (crawledCookies cookie_second) ''session'' =
       Some \<lparr>name = ''session'', attributes = [(''value'', ''1'')], firstFound = Some ''/a''\<rparr>"
    using first_seen_wins[where cfg = cookie_cfg and br = cookie_site and n = "''session''"
        and ?w0.0 = cookie_first and page = 1 and depth = 1 and c =
        "\<lparr>name = ''session'', attributes = [(''value'', ''1'')], firstFound = Some ''/a''\<rparr>"]
    by (simp add: cookie_first_facts cookie_second_def)
  have 6: "map_of (crawledIframes iframe_second) ''/ad'' =
       Some \<lparr>iframe_src = ''/ad'', iframe_firstFound = ''/a''\<rparr>"
    using first_seen_wins[where cfg = cookie_cfg and br = iframe_site and s = "''/ad''"
        and ?w0.0 = iframe_first and page = 1 and depth = 1 and r =
        "\<lparr>iframe_src = ''/ad'', iframe_firstFound = ''/a''\<rparr>"]
    by (simp add: iframe_first_facts iframe_second_def)
  show ?thesis
    using 1 2 3 4 5 6 cookie_second_run iframe_second_run by (simp add: cf)
qed

subsection \<open>C6: the scenario of the specification\<close>

text \<open>
  C6, as stated, fails. With the titles \<open>A\<close>, \<open>B\<close>, \<open>C\<close> the tree that is
  written is not the expected one, in which the child \<open>b\<close> of \<open>c\<close> carries the title
  \<open>B\<close>.
\<close>

theorem example_tree_counterexample:
  "tree_of 3 example_final 0 \<noteq>
     PageTree ''https://example.com/a'' (Some ''A'')
       (Some [PageTree ''https://example.com/b'' (Some ''B'') (Some []),
              PageTree ''https://example.com/c'' (Some ''C'')
                (Some [PageTree ''https://example.com/b'' (Some ''B'') None])])"
  by (simp add: tree_of_pos example_facts)

text \<open>
  C6, amended. For the site of the scenario, whatever the three titles, the run returns
  and the tree is: root \<open>a\<close> with its title and the children \<open>b\<close> (its title, no
  children: its one link is the seed) and \<open>c\<close> (its title), whose single child is
  an object for \<open>b\<close> with the url only, neither title nor children: it lies at depth
  2, above the maximum depth 1, and \<open>crawl\<close> returns on it before the registry is
  consulted.
\<close>

theorem example_tree:
  "\<exists>w. run example_cfg (example_site ta tb tc) = Inr w
     \<and> tree_of 3 w 0 =
         PageTree ''https://example.com/a'' (Some ta)
           (Some [PageTree ''https://example.com/b'' (Some tb) (Some []),
                  PageTree ''https://example.com/c'' (Some tc)
                    (Some [PageTree ''https://example.com/b'' None None])])"
proof -
  from example_run[of ta tb tc] obtain w where
    w: "run example_cfg (example_site ta tb tc) = Inr w"
    and f:
     "objs w 0 = \<lparr>url = ''https://example.com/a'', title = Some ta, children = Some 0\<rparr>"
     "objs w (Suc 0) = \<lparr>url = ''https://example.com/b'', title = Some tb, children = Some (Suc 0)\<rparr>"
     "objs w 2 = \<lparr>url = ''https://example.com/c'', title = Some tc, children = Some 2\<rparr>"
     "objs w 3 = \<lparr>url = ''https://example.com/b'', title = None, children = None\<rparr>"
     "arrs w 0 = [Suc 0, 2]" "arrs w (Suc 0) = []" "arrs w 2 = [3]"
    by (elim exE conjE)
  have "tree_of 3 w 0 =
         PageTree ''https://example.com/a'' (Some ta)
           (Some [PageTree ''https://example.com/b'' (Some tb) (Some []),
                  PageTree ''https://example.com/c'' (Some tc)
                    (Some [PageTree ''https://example.com/b'' None None])])"
    by (simp add: tree_of_pos f)
  with w show ?thesis by (intro exI[of _ w]) simp
qed

subsection \<open>C7: no self-loop\<close>

text \<open>
  C7. In the world any run ends in, returned or aborted, no child in the children array
  of any object has the seed URL; and when the links returned for each page loaded in
  that run leave out the URL that was asked for, no child has the URL of the object
  whose children it is.
\<close>

theorem no_self_loop:
  assumes "children (objs (final_world (run cfg br)) p) = Some a"
    and "c \<in> set (arrs (final_world (run cfg br)) a)"
  shows "url (objs (final_world (run cfg br)) c) \<noteq> URL cfg
     \<and> (own_url_excluded br (loads (final_world (run cfg br)))
          \<longrightarrow> url (objs (final_world (run cfg br)) c) \<noteq> url (objs (final_world (run cfg br)) p))"
proof (cases cfg br rule: run_cases)
  case (returned w)
  with assms have "children (objs w p) = Some a" "c \<in> set (arrs w a)" by simp_all
  with returned reach_no_seed_child[of cfg br w c a] reach_no_self_child[of cfg br w p a c]
  show ?thesis by simp
next
  case (thrown e w u)
  with assms have "children (objs w p) = Some a" "c \<in> set (arrs w a)" by simp_all
  with thrown(1,2) reach_no_seed_child[of cfg br w c a] reach_no_self_child[of cfg br w p a c]
    own_url_excluded_prefix[of br "loads w" "[(u, goto br (map fst (loads w)) u)]"]
  show ?thesis by auto
qed

text \<open>
  On \<open>loop_site\<close>, where each page links to itself and to the seed, the only child
  of \<open>/c\<close> is \<open>/b\<close>.
\<close>

theorem no_self_loop_witness:
  "own_url_excluded loop_site (loads loop_final)
   \<and> arrs loop_final 2 = [3]
   \<and> url (objs loop_final 3) \<noteq> URL shared_cfg
   \<and> url (objs loop_final 3) \<noteq> url (objs loop_final 2)"
proof -
  have "children (objs (final_world (run shared_cfg loop_site)) 2) = Some 2"
    "3 \<in> set (arrs (final_world (run shared_cfg loop_site)) 2)"
    by (simp_all add: loop_facts flip: loop_final_def)
  from no_self_loop[OF this] loop_own show ?thesis
    by (simp add: loop_facts flip: loop_final_def)
qed

subsection \<open>C8: a navigation failure\<close>

text \<open>
  C8. If any load of a run fails with error \<open>e\<close> for URL \<open>u\<close>, then the run is
  aborted with \<open>e\<close>: it throws, in the world \<open>w\<close> of the run in which the load was
  started, with only the call added to the log. So nothing was caught and nothing
  written for the page. The URL was not loaded before and nothing is loaded after (no
  retry), and all earlier loads had succeeded. There is a page object of URL \<open>u\<close>,
  the URL has no registry entry, and in the world the run ends in every object of URL
  \<open>u\<close> is without children and without a title, or with the empty title that the
  reuse of a route gives a child whose URL is not registered: no leaf that tells of the
  failure is in the tree.
\<close>

theorem navigation_failure_aborts:
  assumes "(u, Inl e) \<in> set (loads (final_world (run cfg br)))"
  shows "\<exists>w. run cfg br = Inl (e, w\<lparr>loads := loads w @ [(u, Inl e)]\<rparr>)
           \<and> reach cfg br w
           \<and> goto br (map fst (loads w)) u = Inl e
           \<and> u \<notin> set (map fst (loads w))
           \<and> (\<forall>x\<in>set (loads w). \<exists>pg. snd x = Inr pg)
           \<and> map_of (crawledPages w) u = None
           \<and> (\<exists>p<next_obj w. url (objs w p) = u)
           \<and> (\<forall>p. url (objs (final_world (run cfg br)) p) = u \<longrightarrow>
                  children (objs (final_world (run cfg br)) p) = None
                  \<and> (title (objs (final_world (run cfg br)) p) = None
                     \<or> title (objs (final_world (run cfg br)) p) = Some []))"
proof (cases cfg br rule: run_cases)
  case (returned w)
  with assms reach_loads[OF returned(2)] show ?thesis by fastforce
next
  case (thrown e' w u')
  note l = reach_loads[OF thrown(2)]
  from l have ok: "\<forall>x\<in>set (loads w). \<exists>pg. snd x = Inr pg" by simp
  from assms thrown(1) have "(u, Inl e) \<in> set (loads w) \<or> (u, Inl e) = (u', goto br (map fst (loads w)) u')"
    by auto
  with ok have eq: "u' = u" "goto br (map fst (loads w)) u = Inl e"
    by fastforce+
  with thrown(4) have e': "e' = e" by auto
  from thrown(3) have "u' \<notin> fst ` set (crawledPages w)"
    by (simp add: map_of_eq_None_iff)
  then have nu: "u \<notin> set (map fst (loads w))"
    using l eq(1) by (metis set_map)
  have r: "run cfg br = Inl (e, w\<lparr>loads := loads w @ [(u, Inl e)]\<rparr>)"
    using thrown(1) eq e' by simp
  have node: "\<exists>p<next_obj w. url (objs w p) = u"
    using thrown(5) eq(1) by simp
  have bare: "children (objs w p) = None \<and> (title (objs w p) = None \<or> title (objs w p) = Some [])"
    if "url (objs w p) = u" for p
    using reach_unregistered_bare[OF thrown(2), of p] thrown(3) eq(1) that by simp
  have fin: "objs (final_world (run cfg br)) = objs w"
    by (simp add: r)
  show ?thesis
    apply (rule exI[of _ w])
    apply (simp only: fin)
    using r thrown(2,3) eq nu ok node bare apply simp
    done
qed

text \<open>
  On \<open>shared_site\<close> with maximum depth 3 the load of \<open>/e\<close> fails: the run is
  aborted with that error, \<open>/e\<close> is the last load, and its object is left bare. On
  \<open>fail_site\<close> the load of \<open>/d\<close> fails after the reuse of \<open>/b\<close> has given the
  object the empty title.
\<close>

theorem navigation_failure_aborts_witness:
  "run deep_cfg shared_site = Inl (NavigationError, deep_final)
   \<and> map fst (loads deep_final) = [''/a'', ''/b'', ''/d'', ''/e'']
   \<and> snd (last (loads deep_final)) = Inl NavigationError
   \<and> map_of (crawledPages deep_final) ''/e'' = None
   \<and> objs deep_final 4 = \<lparr>url = ''/e'', title = None, children = None\<rparr>
   \<and> run deep_cfg fail_site = Inl (NavigationError, fail_final)
   \<and> map fst (loads fail_final) = [''/a'', ''/b'', ''/c'', ''/d'']
   \<and> objs fail_final 3 = \<lparr>url = ''/d'', title = Some [], children = None\<rparr>"
proof -
  have "loads deep_final \<noteq> []" "fst (last (loads deep_final)) = ''/e''"
    using deep_facts(5) by (auto simp: last_map[symmetric] simp del: last_map)
  with deep_facts(6) have "(''/e'', Inl NavigationError) \<in> set (loads deep_final)"
    by (metis last_in_set prod.collapse)
  then have "(''/e'', Inl NavigationError) \<in> set (loads (final_world (run deep_cfg shared_site)))"
    by (simp add: deep_final_def)
  from navigation_failure_aborts[OF this] obtain w where
    w: "run deep_cfg shared_site = Inl (NavigationError, w\<lparr>loads := loads w @ [(''/e'', Inl NavigationError)]\<rparr>)"
      "map_of (crawledPages w) ''/e'' = None"
    and bare: "\<forall>p. url (objs (final_world (run deep_cfg shared_site)) p) = ''/e'' \<longrightarrow>
        children (objs (final_world (run deep_cfg shared_site)) p) = None"
    by (elim exE conjE) blast
  from bare have "\<forall>p. url (objs deep_final p) = ''/e'' \<longrightarrow> children (objs deep_final p) = None"
    by (simp only: deep_final_def)
  then have "children (objs deep_final 4) = None"
    by (simp add: deep_facts)
  moreover from w have "run deep_cfg shared_site = Inl (NavigationError, deep_final)"
    "map_of (crawledPages deep_final) ''/e'' = None"
    by (simp_all add: deep_final_def)
  ultimately show ?thesis
    using fail_thrown by (simp add: deep_facts fail_facts)
qed

subsection \<open>C9: termination\<close>

text \<open>
  C9. \<open>crawl\<close> is a total function: its recursion is well-founded for every
  browser, since a nested call has a depth one higher and a call above \<open>maxDepth\<close>
  returns at once. The recursion depth is bounded: with room for more than
  \<open>maxDepth + 1 - depth\<close> nested frames (at least one), the stack-bounded
  \<open>crawl_fuel\<close> returns, and returns what \<open>crawl\<close> returns. For the call of the
  main function at depth 0 that is \<open>maxDepth + 1\<close> levels below the first frame.
\<close>

theorem crawl_terminates:
  "nat (maxDepth cfg + 1 - int depth) < k
   \<Longrightarrow> crawl_fuel k cfg br w page depth = Some (crawl cfg br w page depth)"
  by (rule crawl_fuel_enough(1))

text \<open>On \<open>shared_site\<close> with maximum depth 2, four frames are enough.\<close>

theorem crawl_terminates_witness:
  "crawl_fuel 4 shared_cfg shared_site (initial shared_cfg) 0 0 = Some (run shared_cfg shared_site)"
  using crawl_terminates[of shared_cfg 0 4 shared_site "initial shared_cfg" 0]
  by (simp add: shared_cfg_def run_def)

subsection \<open>C10: the titles of the copied children\<close>

text \<open>
  C10. In the same branch every child in the copied array has its title assigned: the
  title of the registry entry of the child's URL when there is one, and the empty
  string otherwise.
\<close>

theorem fill_in_overwrites:
  assumes depth: "int depth \<le> maxDepth cfg"
    and hit: "map_of (crawledPages w) (url (objs w page)) = Some item"
    and reg: "\<forall>u a. map_of (crawledPages w) u = Some a \<longrightarrow> url (objs w a) = u"
    and arr: "children (objs w item) = Some arr"
  shows "\<exists>w'. crawl cfg br w page depth = Inr w'
     \<and> (\<forall>c\<in>set (arrs w arr).
           title (objs w' c) =
             (case map_of (crawledPages w) (url (objs w c)) of
                Some i \<Rightarrow> title (objs w i)
              | None \<Rightarrow> Some []))"
proof -
  from reuse_route_effect[OF reg hit arr] obtain w' where
    rr: "reuse_route w page item = Inr w'"
    and t: "\<And>p. title (objs w' p) =
            (if p \<in> set (arrs w arr) then known_title w p
             else if p = page then title (objs w item) else title (objs w p))"
    by blast
  have "crawl cfg br w page depth = Inr w'"
    using crawl_reuse[OF depth hit] rr by simp
  then show ?thesis
    by (auto simp: t known_title_def)
qed

text \<open>
  In the run of \<open>order_site\<close>, before the visit of the second \<open>/b\<close> its
  children \<open>/d\<close> and \<open>/c\<close> have no title; \<open>/d\<close> is not registered and \<open>/c\<close>
  is, with title \<open>C\<close>. The visit sets the one title to the empty string and the
  other to \<open>C\<close>.
\<close>

theorem fill_in_overwrites_witness:
  "arrs order_before 2 = [4, 5]
   \<and> title (objs order_before 4) = None \<and> title (objs order_final 4) = Some []
   \<and> title (objs order_before 5) = None \<and> title (objs order_final 5) = Some ''C''"
proof -
  from fill_in_overwrites[OF order_hyps(1,2) order_registry order_hyps(3), of order_site]
  obtain w' where w': "crawl shared_cfg order_site order_before 2 (Suc 0) = Inr w'"
    and t: "\<forall>c\<in>set (arrs order_before 2).
           title (objs w' c) =
             (case map_of (crawledPages order_before) (url (objs order_before c)) of
                Some i \<Rightarrow> title (objs order_before i)
              | None \<Rightarrow> Some [])"
    by (elim exE conjE) simp
  have eq: "order_final = w'"
    using w' order_returns by simp
  have "title (objs w' 4) = Some []" "title (objs w' 5) = Some ''C''"
    using t by (simp_all add: order_before_facts)
  then show ?thesis
    by (simp add: eq order_before_facts)
qed

end
